theory Spec2Isabelle
  imports Complex_Main "HOL-Library.Code_Target_Nat"
begin

section \<open>The process pool of \<open>cli.ts\<close>: data model\<close>

text \<open>
  The development follows \<open>src/cli.ts\<close>: the ledger file \<open>evaluations.json\<close> and its
  entries, the transformation of a worker's result into the stored format, the merge
  \<open>appendResultToFile\<close>, the resume logic of \<open>runEvals\<close>, and the scheduling of child
  processes (\<open>processQueue\<close>, \<open>startProcess\<close> and the \<open>exit\<close> and \<open>error\<close> handlers).

  JavaScript numbers are modelled as rationals. The only arithmetic the pool does on them
  is the product of scores that are 0 or 1, the sum of three durations divided by 1000,
  and the division of the free memory by \<open>1024 * 1024\<close>. The rounding of doubles is not
  modelled: the percentage that \<open>checkAvailableMemory\<close> reports and the duration stored
  with a result can differ from those of the code in the last digit. The comparison of
  the free memory with the threshold and the scores, which are 0 or 1, are exact.
\<close>

type_synonym number = rat

subsection \<open>Rendering numbers in template strings\<close>

definition digit_char :: "nat \<Rightarrow> char" where
  "digit_char d = ''0123456789'' ! d"

text \<open>The decimal digits of a number, the least significant digit computed first.\<close>

function digits_of :: "nat \<Rightarrow> string \<Rightarrow> string" where
  "digits_of n acc =
     (if n < 10 then digit_char n # acc
      else digits_of (n div 10) (digit_char (n mod 10) # acc))"
  by pat_completeness auto
termination
  by (relation "measure fst") auto

declare digits_of.simps [simp del]

definition nat_string :: "nat \<Rightarrow> string" where
  "nat_string n = digits_of n []"

definition int_string :: "int \<Rightarrow> string" where
  "int_string i = (if 0 \<le> i then nat_string (nat i) else CHR ''-'' # nat_string (nat (- i)))"

subsection \<open>The stored result format\<close>

text \<open>
  One element of \<open>scores\<close> and one element of \<open>metrics\<close> of a stored result, as the
  object literals of \<open>createDefaultBraintrustResult\<close> and \<open>transformToBraintrustFormat\<close>
  build them.
\<close>

record score_entry =
  score_name :: string
  score :: number
  score_improvements :: nat
  score_regressions :: nat

record metric_entry =
  metric_name :: string
  metric :: number
  metric_unit :: string
  metric_improvements :: nat
  metric_regressions :: nat

record scores =
  eval_score :: score_entry
  build_score :: score_entry
  lint_score :: score_entry
  test_score :: score_entry

record metrics =
  metric_start :: metric_entry
  metric_end :: metric_entry
  duration :: metric_entry
  prompt_tokens :: metric_entry
  completion_tokens :: metric_entry
  total_tokens :: metric_entry
  prompt_cached_tokens :: metric_entry
  prompt_cache_creation_tokens :: metric_entry

text \<open>
  The stored result. \<open>experimentName\<close> is \<open>modelResult.model\<close>, which the worker may
  have left out (\<open>None\<close>) or empty; \<open>scores\<close> is optional because the loader tests it.
\<close>

record braintrust_result =
  projectName :: string
  experimentName :: "string option"
  projectId :: string
  experimentId :: string
  projectUrl :: string
  experimentUrl :: string
  comparisonExperimentName :: string
  scores :: "scores option"
  metrics :: metrics

subsection \<open>The worker's result\<close>

text \<open>
  What the parent reads of the payload of the \<open>EVAL_RESULT:\<close> line: the list
  \<open>modelResults\<close>, and in each element \<open>model\<close> and \<open>result.evaluationResults\<close> with the
  three success flags and the three durations. A payload that is not an object with these
  fields is \<open>Object None\<close> (no array \<open>modelResults\<close>, as in the initial
  \<open>{ success: true }\<close>) or \<open>Falsy\<close> (\<open>null\<close>, \<open>false\<close>, \<open>0\<close>, the empty string).
\<close>

record evaluationResults =
  buildSuccess :: bool
  lintSuccess :: bool
  testSuccess :: bool
  buildDuration :: "number option"
  lintDuration :: "number option"
  testDuration :: "number option"

record modelResult =
  model :: "string option"
  evaluation :: "evaluationResults option"

datatype worker_result = Falsy | Object "modelResult list option"

text \<open>
  JavaScript truthiness of an optional string, \<open>x || d\<close> on an optional string and
  \<open>x || 0\<close> on an optional number.
\<close>

definition truthy :: "string option \<Rightarrow> bool" where
  "truthy v = (case v of None \<Rightarrow> False | Some s \<Rightarrow> s \<noteq> [])"

definition or_default :: "string option \<Rightarrow> string \<Rightarrow> string" where
  "or_default v d = (case v of None \<Rightarrow> d | Some s \<Rightarrow> if s \<noteq> [] then s else d)"

definition or_zero :: "number option \<Rightarrow> number" where
  "or_zero v = (case v of None \<Rightarrow> 0 | Some x \<Rightarrow> x)"

subsection \<open>\<open>createDefaultBraintrustResult\<close> and \<open>transformToBraintrustFormat\<close>\<close>

definition mk_score :: "string \<Rightarrow> number \<Rightarrow> score_entry" where
  "mk_score n v =
     \<lparr>score_name = n, score = v, score_improvements = 0,
      score_regressions = (if v = 1 then 0 else 1)\<rparr>"

definition mk_metric :: "string \<Rightarrow> number \<Rightarrow> string \<Rightarrow> metric_entry" where
  "mk_metric n v u =
     \<lparr>metric_name = n, metric = v, metric_unit = u, metric_improvements = 0,
      metric_regressions = 0\<rparr>"

definition mk_metrics :: "number \<Rightarrow> metrics" where
  "mk_metrics totalDuration =
     \<lparr>metric_start = mk_metric ''start'' 0 ''s'',
      metric_end = mk_metric ''end'' totalDuration ''s'',
      duration = mk_metric ''duration'' totalDuration ''s'',
      prompt_tokens = mk_metric ''prompt_tokens'' 0 ''tok'',
      completion_tokens = mk_metric ''completion_tokens'' 0 ''tok'',
      total_tokens = mk_metric ''total_tokens'' 0 ''tok'',
      prompt_cached_tokens = mk_metric ''prompt_cached_tokens'' 0 ''tok'',
      prompt_cache_creation_tokens = mk_metric ''prompt_cache_creation_tokens'' 0 ''tok''\<rparr>"

text \<open>
  \<open>now\<close> is the reading of \<open>Date.now()\<close>; one reading stands for all the readings taken
  during one transformation.
\<close>

definition createDefaultBraintrustResult :: "nat \<Rightarrow> string \<Rightarrow> string \<Rightarrow> braintrust_result" where
  "createDefaultBraintrustResult now evalPath modelName =
     (let projectId = ''local-evals'';
          experimentId = evalPath @ ''-'' @ nat_string now
      in \<lparr>projectName = ''EVALS'',
          experimentName = Some modelName,
          projectId = projectId,
          experimentId = experimentId,
          projectUrl = ''#'' @ projectId,
          experimentUrl = ''#'' @ experimentId,
          comparisonExperimentName = '''',
          scores = Some
            \<lparr>eval_score = mk_score ''eval_score'' 0,
             build_score = mk_score ''build_score'' 0,
             lint_score = mk_score ''lint_score'' 0,
             test_score = mk_score ''test_score'' 0\<rparr>,
          metrics = mk_metrics 0\<rparr>)"

definition transformModelResult :: "nat \<Rightarrow> string \<Rightarrow> modelResult \<Rightarrow> braintrust_result" where
  "transformModelResult now evalPath mr =
     (case evaluation mr of
        None \<Rightarrow>
          createDefaultBraintrustResult now evalPath (or_default (model mr) ''Unknown Model'')
      | Some evalResults \<Rightarrow>
          (let buildScore = (if buildSuccess evalResults then 1 else 0);
               lintScore = (if lintSuccess evalResults then 1 else 0);
               testScore = (if testSuccess evalResults then 1 else 0);
               evalScore = buildScore * lintScore * testScore;
               totalDuration =
                 (or_zero (buildDuration evalResults) + or_zero (lintDuration evalResults)
                    + or_zero (testDuration evalResults)) / 1000;
               projectId = ''local-evals'';
               experimentId = evalPath @ ''-'' @ nat_string now
           in \<lparr>projectName = ''EVALS'',
               experimentName = model mr,
               projectId = projectId,
               experimentId = experimentId,
               projectUrl = ''#'' @ projectId,
               experimentUrl = ''#'' @ experimentId,
               comparisonExperimentName = '''',
               scores = Some
                 \<lparr>eval_score = mk_score ''eval_score'' evalScore,
                  build_score = mk_score ''build_score'' buildScore,
                  lint_score = mk_score ''lint_score'' lintScore,
                  test_score = mk_score ''test_score'' testScore\<rparr>,
               metrics = mk_metrics totalDuration\<rparr>))"

text \<open>
  The value \<open>transformToBraintrustFormat\<close> returns: one object, or an array of them
  when \<open>modelResults\<close> has more than one element.
\<close>

datatype transformed = Single braintrust_result | Multi "braintrust_result list"

definition transformToBraintrustFormat :: "nat \<Rightarrow> string \<Rightarrow> worker_result \<Rightarrow> transformed" where
  "transformToBraintrustFormat now evalPath result =
     (case result of
        Falsy \<Rightarrow> Single (createDefaultBraintrustResult now evalPath ''Unknown Model'')
      | Object None \<Rightarrow> Single (createDefaultBraintrustResult now evalPath ''Unknown Model'')
      | Object (Some modelResults) \<Rightarrow>
          (let transformedResults = map (transformModelResult now evalPath) modelResults
           in if length transformedResults = 1 then Single (hd transformedResults)
              else if length transformedResults > 1 then Multi transformedResults
              else Single (createDefaultBraintrustResult now evalPath ''Unknown Model'')))"

definition results_of :: "transformed \<Rightarrow> braintrust_result list" where
  "results_of t = (case t of Single r \<Rightarrow> [r] | Multi rs \<Rightarrow> rs)"


section \<open>Configuration and the ledger file\<close>

text \<open>
  The fields of the pool that never change after the constructor: the names of the
  models of \<open>MODELS\<close> (\<open>lib/models.ts\<close>), the run-mode flags and the worker budget.
\<close>

record config =
  MODELS :: "string list"
  maxProcesses :: nat
  dryRun :: bool
  verbose :: bool
  debug :: bool

subsection \<open>The model folder\<close>

definition is_alnum :: "char \<Rightarrow> bool" where
  "is_alnum c =
     (let n = (of_char c :: nat)
      in (48 \<le> n \<and> n \<le> 57) \<or> (65 \<le> n \<and> n \<le> 90) \<or> (97 \<le> n \<and> n \<le> 122))"

definition to_lower :: "char \<Rightarrow> char" where
  "to_lower c =
     (let n = (of_char c :: nat) in if 65 \<le> n \<and> n \<le> 90 then char_of (n + 32) else c)"

text \<open>\<open>.replace(/[^a-zA-Z0-9]+/g, "-")\<close>: every maximal run of other characters becomes one dash.\<close>

function replace_non_alnum :: "string \<Rightarrow> string" where
  "replace_non_alnum [] = []"
| "replace_non_alnum (c # cs) =
     (if is_alnum c then c # replace_non_alnum cs
      else CHR ''-'' # replace_non_alnum (dropWhile (\<lambda>d. \<not> is_alnum d) cs))"
  by pat_completeness auto
termination
  by (relation "measure length") (auto simp: length_dropWhile_le less_Suc_eq_le)

text \<open>\<open>.replace(/^-+|-+$/g, "")\<close>: the dashes at both ends go.\<close>

definition strip_dashes :: "string \<Rightarrow> string" where
  "strip_dashes s =
     rev (dropWhile (\<lambda>c. c = CHR ''-'') (rev (dropWhile (\<lambda>c. c = CHR ''-'') s)))"

definition sanitize :: "string \<Rightarrow> string" where
  "sanitize modelName = map to_lower (strip_dashes (replace_non_alnum modelName))"

definition modelFolder :: "config \<Rightarrow> string" where
  "modelFolder cfg =
     sanitize
       (if length (MODELS cfg) > 1 then ''all-models''
        else if length (MODELS cfg) > 0 then hd (MODELS cfg) else ''default'')"

subsection \<open>Entries of \<open>evaluations.json\<close>\<close>

text \<open>
  \<open>value.result\<close> of a fulfilled entry: the current format, the two legacy formats that
  \<open>loadCompletedEvals\<close> still reads (an array \<open>modelResults\<close> of which only the model
  names are read, and a bare \<open>evaluationResults\<close>), or nothing that has one of these
  fields.
\<close>

datatype stored_result =
  Braintrust braintrust_result
| LegacyModelResults "string list"
| LegacyEvaluationResults
| NoResult

text \<open>
  \<open>Fulfilled evalPath status result\<close> is
  \<open>{ status: "fulfilled", value: { evalPath, status, result } }\<close> and
  \<open>Rejected evalPath error\<close> is \<open>{ status: "rejected", reason: { evalPath, error } }\<close>.
\<close>

datatype entry =
  Fulfilled string string stored_result
| Rejected string "string option"

fun entry_status :: "entry \<Rightarrow> string" where
  "entry_status (Fulfilled _ _ _) = ''fulfilled''"
| "entry_status (Rejected _ _) = ''rejected''"

text \<open>\<open>r.value?.evalPath\<close>, \<open>r.value?.status\<close> and \<open>r.value?.result?.experimentName\<close>.\<close>

fun value_evalPath :: "entry \<Rightarrow> string option" where
  "value_evalPath (Fulfilled evalPath _ _) = Some evalPath"
| "value_evalPath (Rejected _ _) = None"

fun value_status :: "entry \<Rightarrow> string option" where
  "value_status (Fulfilled _ status _) = Some status"
| "value_status (Rejected _ _) = None"

fun value_result :: "entry \<Rightarrow> stored_result" where
  "value_result (Fulfilled _ _ r) = r"
| "value_result (Rejected _ _) = NoResult"

fun result_experimentName :: "stored_result \<Rightarrow> string option" where
  "result_experimentName (Braintrust b) = experimentName b"
| "result_experimentName _ = None"

fun result_scores :: "stored_result \<Rightarrow> scores option" where
  "result_scores (Braintrust b) = scores b"
| "result_scores _ = None"

text \<open>The key of the set \<open>completedEvals\<close>: the template \<open>`${evalPath}_${modelName}`\<close>.\<close>

definition key_of :: "string \<Rightarrow> string \<Rightarrow> string" where
  "key_of evalPath modelName = evalPath @ ''_'' @ modelName"

text \<open>A JavaScript \<open>Set\<close> of strings in insertion order.\<close>

definition set_add :: "string list \<Rightarrow> string \<Rightarrow> string list" where
  "set_add xs x = (if x \<in> set xs then xs else xs @ [x])"

section \<open>The state of a pool\<close>

text \<open>Lines written to the console, by the statement that writes them.\<close>

datatype message =
  FoundCompleted nat
| CompletedKeys "string list"
| NoExistingResults string
| SkippingEvals nat
| SkippedEvals "string list"
| AllAlreadyCompleted
| RunningEvals nat string
| WaitingForMemory int int
| MemoryAvailableAgain int int
| MemoryInfo int int
| Starting string
| NoEvalResultFound string string
| FullStdout string
| FailedToParse string
| EmptyStdout string
| Appended nat string
| FailedToAppend
| ProgressFinal nat nat
| CleaningUp
| PreservingState

text \<open>The class \<open>ProgressTracker\<close>: the map \<open>statuses\<close> and whether its timer runs.\<close>

datatype progress = Running | Success | Fail

record tracker =
  statuses :: "(string \<times> progress) list"
  tracker_interval :: bool

text \<open>
  The arguments of a call of \<open>appendResultToFile\<close>, waiting in the chain of promises
  \<open>fileWriteQueue\<close>. The value a job's promise is resolved with has the same fields.
\<close>

record write_request =
  w_evalPath :: string
  w_status :: string
  w_result :: "worker_result option"
  w_error :: "string option"

text \<open>
  The mutable fields of \<open>ProcessPool\<close>, and around them what the pool acts on: the
  content of \<open>evaluations.json\<close> (\<open>None\<close> when the file is absent or does not parse), the
  children spawned so far with the job of their handlers and their arguments, the signals
  sent to them with \<open>child.kill\<close>, the promises resolved, the console, and the number of
  readings of \<open>freemem()\<close> taken. A child is identified by its position in \<open>spawned\<close>.
\<close>

record pool =
  activeProcesses :: "(nat \<times> string) list"
  queue :: "string list"
  memoryCheckInterval :: "nat option"
  fileWriteQueue :: "write_request list"
  completedEvals :: "string list"
  progressTracker :: "tracker option"
  evaluations_json :: "entry list option"
  spawned :: "(string \<times> string list) list"
  killed :: "(nat \<times> string) list"
  settled :: "write_request list"
  console :: "message list"
  memReads :: nat

definition new_pool :: "entry list option \<Rightarrow> pool" where
  "new_pool file =
     \<lparr>activeProcesses = [], queue = [], memoryCheckInterval = None, fileWriteQueue = [],
      completedEvals = [], progressTracker = None, evaluations_json = file, spawned = [],
      killed = [], settled = [], console = [], memReads = 0\<rparr>"

definition console_log :: "message \<Rightarrow> pool \<Rightarrow> pool" where
  "console_log m s = s\<lparr>console := console s @ [m]\<rparr>"

section \<open>The completion ledger\<close>

text \<open>An optional string inside a template string or as the element of a set.\<close>

definition str :: "string option \<Rightarrow> string" where
  "str v = (case v of None \<Rightarrow> ''undefined'' | Some s \<Rightarrow> s)"

subsection \<open>\<open>loadCompletedEvals\<close>, \<open>isEvalCompleted\<close>, \<open>getModelsToRun\<close>\<close>

text \<open>The keys one element of the file adds to \<open>completedEvals\<close>: the body of the loop.\<close>

definition keys_of_result :: "config \<Rightarrow> entry \<Rightarrow> string list" where
  "keys_of_result cfg result =
     (if entry_status result = ''fulfilled'' \<and> value_status result = Some ''success'' then
        (let evalResult = value_result result;
             evalPath = str (value_evalPath result)
         in if truthy (result_experimentName evalResult) \<and> result_scores evalResult \<noteq> None then
              [key_of evalPath (str (result_experimentName evalResult))]
            else case evalResult of
              LegacyModelResults ms \<Rightarrow> map (key_of evalPath) ms
            | LegacyEvaluationResults \<Rightarrow>
                (if length (MODELS cfg) > 0 then [key_of evalPath (hd (MODELS cfg))] else [])
            | _ \<Rightarrow> [])
      else [])"

definition loadCompletedEvals :: "config \<Rightarrow> pool \<Rightarrow> pool" where
  "loadCompletedEvals cfg s =
     (case evaluations_json s of
        None \<Rightarrow>
          (if verbose cfg then console_log (NoExistingResults (modelFolder cfg)) s else s)
      | Some results \<Rightarrow>
          (let s1 = s\<lparr>completedEvals :=
                 foldl set_add (completedEvals s) (concat (map (keys_of_result cfg) results))\<rparr>
           in if length (completedEvals s1) > 0 then
                (let s2 = console_log (FoundCompleted (length (completedEvals s1))) s1
                 in if verbose cfg then console_log (CompletedKeys (completedEvals s2)) s2 else s2)
              else s1))"

text \<open>\<open>key.startsWith(evalPrefix)\<close>\<close>

definition startsWith :: "string \<Rightarrow> string \<Rightarrow> bool" where
  "startsWith s p = (take (length p) s = p)"

definition isEvalCompleted :: "pool \<Rightarrow> string \<Rightarrow> string option \<Rightarrow> bool" where
  "isEvalCompleted s evalPath modelName =
     (if truthy modelName then
        key_of evalPath (str modelName) \<in> set (completedEvals s)
      else
        (let evalPrefix = evalPath @ ''_''
         in list_ex (\<lambda>key. startsWith key evalPrefix) (completedEvals s)))"


subsection \<open>\<open>appendResultToFile\<close>\<close>

text \<open>
  \<open>transformedResult\<close>: the transformation of a truthy result of a successful job;
  otherwise the result as it is, in which the pool finds no \<open>experimentName\<close>.
\<close>

definition transformedResult :: "nat \<Rightarrow> string \<Rightarrow> string \<Rightarrow> worker_result option \<Rightarrow> transformed option" where
  "transformedResult now evalPath status result =
     (case result of
        Some (Object r) \<Rightarrow>
          (if status = ''success'' then Some (transformToBraintrustFormat now evalPath (Object r))
           else None)
      | _ \<Rightarrow> None)"

definition newResults :: "nat \<Rightarrow> string \<Rightarrow> string \<Rightarrow> worker_result option \<Rightarrow> string option \<Rightarrow> entry list" where
  "newResults now evalPath status result error =
     (case transformedResult now evalPath status result of
        Some (Multi rs) \<Rightarrow> map (\<lambda>modelResult. Fulfilled evalPath status (Braintrust modelResult)) rs
      | Some (Single r) \<Rightarrow> [Fulfilled evalPath status (Braintrust r)]
      | None \<Rightarrow>
          [if status = ''success'' then Fulfilled evalPath status NoResult
           else Rejected evalPath error])"

definition newModelNames :: "entry list \<Rightarrow> string list" where
  "newModelNames news =
     foldl set_add []
       (concat (map (\<lambda>newRes.
          if entry_status newRes = ''fulfilled''
               \<and> truthy (result_experimentName (value_result newRes))
          then [str (result_experimentName (value_result newRes))] else []) news))"

text \<open>The predicate of \<open>existingResults.filter\<close>.\<close>

definition keep_existing :: "string \<Rightarrow> string list \<Rightarrow> entry \<Rightarrow> bool" where
  "keep_existing evalPath names r =
     (if entry_status r = ''fulfilled'' \<and> value_evalPath r = Some evalPath then
        (let modelName = result_experimentName (value_result r)
         in truthy modelName \<and> str modelName \<notin> set names)
      else entry_status r \<noteq> ''fulfilled'' \<or> value_evalPath r \<noteq> Some evalPath)"

text \<open>The array written back: the entries kept, then the new ones.\<close>

definition merged :: "nat \<Rightarrow> write_request \<Rightarrow> entry list \<Rightarrow> entry list" where
  "merged now w existingResults =
     (let news = newResults now (w_evalPath w) (w_status w) (w_result w) (w_error w)
      in filter (keep_existing (w_evalPath w) (newModelNames news)) existingResults @ news)"

text \<open>The keys marked as completed after the write.\<close>

definition completed_after :: "nat \<Rightarrow> write_request \<Rightarrow> string list" where
  "completed_after now w =
     (case transformedResult now (w_evalPath w) (w_status w) (w_result w) of
        None \<Rightarrow> []
      | Some t \<Rightarrow>
          concat (map (\<lambda>modelResult.
            if truthy (experimentName modelResult)
            then [key_of (w_evalPath w) (str (experimentName modelResult))]
            else []) (results_of t)))"

text \<open>
  The body of the write, run when its turn in \<open>fileWriteQueue\<close> comes. \<open>fsOk\<close> tells
  whether \<open>mkdir\<close> and \<open>writeFile\<close> succeed; when they do not, the \<open>catch\<close> prints a
  warning and the file and \<open>completedEvals\<close> stay as they are.
\<close>

definition appendResultToFile :: "config \<Rightarrow> nat \<Rightarrow> bool \<Rightarrow> write_request \<Rightarrow> pool \<Rightarrow> pool" where
  "appendResultToFile cfg now fsOk w s =
     (if \<not> fsOk then console_log FailedToAppend s
      else
        (let existingResults = (case evaluations_json s of Some rs \<Rightarrow> rs | None \<Rightarrow> []);
             s1 = s\<lparr>evaluations_json := Some (merged now w existingResults),
                    completedEvals := foldl set_add (completedEvals s) (completed_after now w)\<rparr>
         in if verbose cfg then
              console_log (Appended
                     (length (newResults now (w_evalPath w) (w_status w) (w_result w) (w_error w)))
                     (w_evalPath w)) s1
            else s1))"

section \<open>The scheduler\<close>

subsection \<open>The environment and \<open>checkAvailableMemory\<close>\<close>

text \<open>
  What the pool reads from outside: the \<open>k\<close>-th reading of \<open>os.freemem()\<close>, the value of
  \<open>os.totalmem()\<close>, and \<open>JSON.parse\<close> on the payload of a result line (\<open>None\<close> when it
  throws).
\<close>

record env =
  freemem :: "nat \<Rightarrow> nat"
  totalmem :: nat
  JSON_parse :: "string \<Rightarrow> worker_result option"

record memory_check =
  hasEnough :: bool
  available :: int
  total :: int
  percentage :: int

text \<open>\<open>Math.round\<close> rounds half up.\<close>

definition js_round :: "number \<Rightarrow> int" where
  "js_round x = \<lfloor>x + 1 / 2\<rfloor>"

definition checkAvailableMemory :: "nat \<Rightarrow> nat \<Rightarrow> number \<Rightarrow> memory_check" where
  "checkAvailableMemory freeBytes totalBytes minRequiredMB =
     (let availableMB = of_nat freeBytes / 1024 / 1024;
          percentage = js_round ((of_nat freeBytes / of_nat totalBytes) * 100)
      in \<lparr>hasEnough = (availableMB \<ge> minRequiredMB),
          available = js_round availableMB,
          total = js_round (of_nat totalBytes / 1024 / 1024),
          percentage = percentage\<rparr>)"

subsection \<open>\<open>ProgressTracker.succeed\<close>, \<open>fail\<close> and \<open>stop\<close>\<close>

text \<open>\<open>Map.set\<close>: a known key keeps its place, a new key goes to the end.\<close>

definition map_set :: "(string \<times> 'v) list \<Rightarrow> string \<Rightarrow> 'v \<Rightarrow> (string \<times> 'v) list" where
  "map_set m k v =
     (if k \<in> fst ` set m then map (\<lambda>(k', v'). if k' = k then (k', v) else (k', v')) m
      else m @ [(k, v)])"

definition tracker_stop :: "tracker \<Rightarrow> tracker \<times> message" where
  "tracker_stop t =
     (let completed = length (filter (\<lambda>(_, st). st \<noteq> Running) (statuses t));
          successful = length (filter (\<lambda>(_, st). st = Success) (statuses t))
      in (t\<lparr>tracker_interval := False\<rparr>, ProgressFinal completed successful))"

definition tracker_set :: "progress \<Rightarrow> string \<Rightarrow> tracker \<Rightarrow> tracker \<times> message list" where
  "tracker_set st ident t =
     (let t1 = t\<lparr>statuses := map_set (statuses t) ident st\<rparr>
      in if list_all (\<lambda>(_, st'). st' \<noteq> Running) (statuses t1)
         then (fst (tracker_stop t1), [snd (tracker_stop t1)])
         else (t1, []))"

text \<open>The update of the pool's tracker at the start of the \<open>exit\<close> and \<open>error\<close> handlers.\<close>

definition update_tracker :: "config \<Rightarrow> progress \<Rightarrow> string \<Rightarrow> pool \<Rightarrow> pool" where
  "update_tracker cfg st evalPath s =
     (case progressTracker s of
        Some t \<Rightarrow>
          (if \<not> verbose cfg then
             s\<lparr>progressTracker := Some (fst (tracker_set st evalPath t)),
               console := console s @ snd (tracker_set st evalPath t)\<rparr>
           else s)
      | None \<Rightarrow> s)"

subsection \<open>\<open>startProcess\<close> and \<open>processQueue\<close>\<close>

text \<open>The argument list of \<open>spawn("bun", \<dots>)\<close>.\<close>

definition spawn_args :: "config \<Rightarrow> string \<Rightarrow> string list" where
  "spawn_args cfg evalPath =
     [''cli.ts'', ''--eval'', evalPath]
       @ (if dryRun cfg then [''--dry''] else [])
       @ (if verbose cfg then [''--verbose''] else [])
       @ (if debug cfg then [''--debug''] else [])
       @ [''--all-models'']"

text \<open>
  The synchronous part of \<open>startProcess\<close>: the child is spawned and entered in
  \<open>activeProcesses\<close>. Its handlers are the functions \<open>on_exit\<close> and \<open>on_error\<close> below; the
  \<open>data\<close> handlers only collect \<open>stdout\<close> and echo lines, and the collected \<open>stdout\<close> is
  an argument of \<open>on_exit\<close>.
\<close>

definition startProcess :: "config \<Rightarrow> string \<Rightarrow> pool \<Rightarrow> pool" where
  "startProcess cfg evalPath s =
     (let s1 = (if \<not> verbose cfg then console_log (Starting evalPath) s else s);
          child = length (spawned s1)
      in s1\<lparr>spawned := spawned s1 @ [(evalPath, spawn_args cfg evalPath)],
            activeProcesses := activeProcesses s1 @ [(child, evalPath)]\<rparr>)"

text \<open>The branch of \<open>processQueue\<close> taken when memory is short: notice, timer, \<open>break\<close>.\<close>

definition wait_for_memory :: "memory_check \<Rightarrow> pool \<Rightarrow> pool" where
  "wait_for_memory memoryCheck s =
     (let s1 = console_log (WaitingForMemory (available memoryCheck) (percentage memoryCheck)) s
      in if memoryCheckInterval s1 = None \<and> length (queue s1) > 0
         then s1\<lparr>memoryCheckInterval := Some 2000\<rparr> else s1)"

text \<open>The rest of the loop body: the head of the queue is shifted out and started.\<close>

definition admit_next :: "config \<Rightarrow> memory_check \<Rightarrow> pool \<Rightarrow> pool" where
  "admit_next cfg memoryCheck s =
     (let s1 = (if verbose cfg
                then console_log (MemoryInfo (available memoryCheck) (percentage memoryCheck)) s
                else s)
      in case queue s1 of
           [] \<Rightarrow> s1
         | job # rest \<Rightarrow> startProcess cfg job (s1\<lparr>queue := rest\<rparr>))"

function processQueue :: "env \<Rightarrow> config \<Rightarrow> pool \<Rightarrow> pool" where
  "processQueue e cfg s =
     (if length (queue s) > 0 \<and> length (activeProcesses s) < maxProcesses cfg then
        (let memoryCheck = checkAvailableMemory (freemem e (memReads s)) (totalmem e) 100;
             s1 = s\<lparr>memReads := memReads s + 1\<rparr>
         in if \<not> hasEnough memoryCheck then wait_for_memory memoryCheck s1
            else processQueue e cfg (admit_next cfg memoryCheck s1))
      else s)"
  by pat_completeness auto
termination
  by (relation "measure (\<lambda>(e, cfg, s). length (queue s))")
     (auto simp: admit_next_def startProcess_def console_log_def Let_def split: list.splits)

declare processQueue.simps [simp del]

text \<open>\<open>runEval\<close>: the job joins the queue and the queue is processed.\<close>

definition runEval :: "env \<Rightarrow> config \<Rightarrow> string \<Rightarrow> pool \<Rightarrow> pool" where
  "runEval e cfg evalPath s = processQueue e cfg (s\<lparr>queue := queue s @ [evalPath]\<rparr>)"

text \<open>The callback of the timer that \<open>processQueue\<close> arms.\<close>

definition on_memory_interval :: "env \<Rightarrow> config \<Rightarrow> pool \<Rightarrow> pool" where
  "on_memory_interval e cfg s =
     (if memoryCheckInterval s = None then s
      else
        (let recheckMemory = checkAvailableMemory (freemem e (memReads s)) (totalmem e) 100;
             s1 = s\<lparr>memReads := memReads s + 1\<rparr>
         in if hasEnough recheckMemory then
              processQueue e cfg
                ((console_log (MemoryAvailableAgain (available recheckMemory) (percentage recheckMemory)) s1)
                   \<lparr>memoryCheckInterval := None\<rparr>)
            else s1))"

subsection \<open>The result protocol: reading \<open>stdout\<close>\<close>

text \<open>
  Strings are lists of code units below 256. \<open>trim\<close> removes the white space and the
  line terminators of that range from both ends.
\<close>

definition is_space :: "char \<Rightarrow> bool" where
  "is_space c = ((of_char c :: nat) \<in> {9, 10, 11, 12, 13, 32, 160})"

definition trim :: "string \<Rightarrow> string" where
  "trim s = rev (dropWhile is_space (rev (dropWhile is_space s)))"

text \<open>\<open>split("\n")\<close>\<close>

fun split_lines :: "string \<Rightarrow> string list" where
  "split_lines [] = [[]]"
| "split_lines (c # cs) =
     (if c = CHR 0x0A then [] # split_lines cs
      else (case split_lines cs of
              [] \<Rightarrow> [[c]]
            | l # ls \<Rightarrow> (c # l) # ls))"

text \<open>\<open>s.replace(pat, rep)\<close> with a string pattern: the first occurrence is replaced.\<close>

fun replace_first :: "string \<Rightarrow> string \<Rightarrow> string \<Rightarrow> string" where
  "replace_first pat rep [] = (if pat = [] then rep else [])"
| "replace_first pat rep (c # cs) =
     (if startsWith (c # cs) pat then rep @ drop (length pat) (c # cs)
      else c # replace_first pat rep cs)"

text \<open>\<open>stdout.slice(-500)\<close>\<close>

definition slice_last :: "nat \<Rightarrow> string \<Rightarrow> string" where
  "slice_last n s = drop (length s - n) s"

text \<open>
  The block of the \<open>exit\<close> handler that computes \<open>result\<close> from \<open>stdout\<close> when the code is
  0, with the warnings it prints. \<open>result\<close> starts as \<open>{ success: true }\<close>.
\<close>

definition parse_stdout :: "env \<Rightarrow> string \<Rightarrow> string \<Rightarrow> worker_result \<times> message list" where
  "parse_stdout e evalPath stdout =
     (if trim stdout \<noteq> [] then
        (let lines = split_lines (trim stdout)
         in case find (\<lambda>line. startsWith line ''EVAL_RESULT:'') lines of
              Some resultLine \<Rightarrow>
                (case JSON_parse e (replace_first ''EVAL_RESULT:'' [] resultLine) of
                   Some parsed \<Rightarrow> (parsed, [])
                 | None \<Rightarrow> (Object None, [FailedToParse evalPath]))
            | None \<Rightarrow>
                (Object None,
                 [NoEvalResultFound evalPath (last lines), FullStdout (slice_last 500 stdout)]))
      else (Object None, [EmptyStdout evalPath]))"

subsection \<open>The handlers of a child\<close>

text \<open>
  \<open>child.on("exit", async (code, signal) => \<dots>)\<close> up to its \<open>await\<close>: the child leaves
  \<open>activeProcesses\<close>, the outcome is classified, and the write joins \<open>fileWriteQueue\<close>.
  A child that was never spawned has no handler.
\<close>

definition exit_message :: "int option \<Rightarrow> string option \<Rightarrow> string" where
  "exit_message code signal =
     (if truthy signal then ''Process killed by signal '' @ str signal
      else ''Process exited with code ''
             @ (case code of None \<Rightarrow> ''null'' | Some c \<Rightarrow> int_string c))"

definition on_exit :: "env \<Rightarrow> config \<Rightarrow> nat \<Rightarrow> int option \<Rightarrow> string option \<Rightarrow> string \<Rightarrow> pool \<Rightarrow> pool" where
  "on_exit e cfg child code signal stdout s =
     (if child < length (spawned s) then
        (let evalPath = fst (spawned s ! child);
             s1 = s\<lparr>activeProcesses := filter (\<lambda>(c, _). c \<noteq> child) (activeProcesses s)\<rparr>;
             s2 = update_tracker cfg (if code = Some 0 then Success else Fail) evalPath s1
         in if code = Some 0 then
              (let parsed = parse_stdout e evalPath stdout;
                   s3 = s2\<lparr>console := console s2 @ snd parsed\<rparr>
               in s3\<lparr>fileWriteQueue := fileWriteQueue s3 @
                       [\<lparr>w_evalPath = evalPath, w_status = ''success'',
                         w_result = Some (fst parsed), w_error = None\<rparr>]\<rparr>)
            else
              (let errorMsg = exit_message code signal
               in s2\<lparr>fileWriteQueue := fileWriteQueue s2 @
                       [\<lparr>w_evalPath = evalPath, w_status = ''error'',
                         w_result = None, w_error = Some errorMsg\<rparr>]\<rparr>))
      else s)"

text \<open>\<open>child.on("error", async (error) => \<dots>)\<close> up to its \<open>await\<close>.\<close>

definition on_error :: "config \<Rightarrow> nat \<Rightarrow> string \<Rightarrow> pool \<Rightarrow> pool" where
  "on_error cfg child message s =
     (if child < length (spawned s) then
        (let evalPath = fst (spawned s ! child);
             s1 = s\<lparr>activeProcesses := filter (\<lambda>(c, _). c \<noteq> child) (activeProcesses s)\<rparr>;
             s2 = update_tracker cfg Fail evalPath s1
         in s2\<lparr>fileWriteQueue := fileWriteQueue s2 @
                 [\<lparr>w_evalPath = evalPath, w_status = ''error'',
                   w_result = None, w_error = Some message\<rparr>]\<rparr>)
      else s)"

text \<open>
  The head of \<open>fileWriteQueue\<close> runs, and the handler that awaited it goes on: it
  resolves the promise of its job with the same fields the write was called with, and
  calls \<open>processQueue\<close>.
\<close>

definition on_write_done :: "env \<Rightarrow> config \<Rightarrow> nat \<Rightarrow> bool \<Rightarrow> pool \<Rightarrow> pool" where
  "on_write_done e cfg now fsOk s =
     (case fileWriteQueue s of
        [] \<Rightarrow> s
      | w # ws \<Rightarrow>
          (let s1 = appendResultToFile cfg now fsOk w (s\<lparr>fileWriteQueue := ws\<rparr>);
               s2 = s1\<lparr>settled := settled s1 @ [w]\<rparr>
           in processQueue e cfg s2))"

subsection \<open>Events\<close>

text \<open>
  What can happen to a pool between the start of \<open>runEvals\<close> and its return: a job is
  submitted, a child exits or fails to start, the pending write finishes, the memory
  timer fires.
\<close>

datatype event =
  Submit string
| Exit nat "int option" "string option" string
| Error nat string
| WriteDone nat bool
| MemoryTick

fun step :: "env \<Rightarrow> config \<Rightarrow> pool \<Rightarrow> event \<Rightarrow> pool" where
  "step e cfg s (Submit evalPath) = runEval e cfg evalPath s"
| "step e cfg s (Exit child code signal stdout) = on_exit e cfg child code signal stdout s"
| "step e cfg s (Error child message) = on_error cfg child message s"
| "step e cfg s (WriteDone now fsOk) = on_write_done e cfg now fsOk s"
| "step e cfg s MemoryTick = on_memory_interval e cfg s"

definition run :: "env \<Rightarrow> config \<Rightarrow> pool \<Rightarrow> event list \<Rightarrow> pool" where
  "run e cfg s evs = foldl (step e cfg) s evs"

subsection \<open>\<open>runEvals\<close>\<close>

definition allCompleted :: "config \<Rightarrow> pool \<Rightarrow> string \<Rightarrow> bool" where
  "allCompleted cfg s evalPath =
     list_all (\<lambda>model. isEvalCompleted s evalPath (Some model)) (MODELS cfg)"

definition evalsToRun :: "config \<Rightarrow> pool \<Rightarrow> string list \<Rightarrow> string list" where
  "evalsToRun cfg s evalPaths =
     (if modelFolder cfg = ''all-models''
      then filter (\<lambda>evalPath. \<not> allCompleted cfg s evalPath) evalPaths
      else filter (\<lambda>evalPath. \<not> isEvalCompleted s evalPath None) evalPaths)"

definition skippedEvals :: "config \<Rightarrow> pool \<Rightarrow> string list \<Rightarrow> string list" where
  "skippedEvals cfg s evalPaths =
     (if modelFolder cfg = ''all-models''
      then filter (\<lambda>evalPath. allCompleted cfg s evalPath) evalPaths
      else filter (\<lambda>evalPath. isEvalCompleted s evalPath None) evalPaths)"

text \<open>
  \<open>runEvals\<close> up to \<open>await Promise.allSettled(promises)\<close>: the ledger is loaded, the
  evals to run are chosen, and \<open>runEval\<close> is called on each in turn.
\<close>

definition runEvals_start :: "env \<Rightarrow> config \<Rightarrow> string list \<Rightarrow> pool \<Rightarrow> pool" where
  "runEvals_start e cfg evalPaths s =
     (let s1 = loadCompletedEvals cfg s;
          toRun = evalsToRun cfg s1 evalPaths;
          skipped = skippedEvals cfg s1 evalPaths;
          s2 = (if length skipped > 0 then
                  (let s' = console_log (SkippingEvals (length skipped)) s1
                   in if verbose cfg then console_log (SkippedEvals skipped) s' else s')
                else s1)
      in if length toRun = 0 then console_log AllAlreadyCompleted s2
         else foldl (\<lambda>s' evalPath. runEval e cfg evalPath s')
                (console_log (RunningEvals (length toRun) (modelFolder cfg)) s2) toRun)"

text \<open>What \<open>runEvals\<close> returns: the content of the file, empty when it cannot be read.\<close>

definition allResults :: "pool \<Rightarrow> entry list" where
  "allResults s = (case evaluations_json s of Some rs \<Rightarrow> rs | None \<Rightarrow> [])"

subsection \<open>\<open>ProcessPool.cleanup\<close>\<close>

text \<open>
  The synchronous part of the pool's \<open>cleanup\<close>: the memory timer is cleared and every
  active child is sent \<open>SIGTERM\<close>. The function returns the children whose promise is
  pending. The promise of a child is resolved by its \<open>exit\<close> event, or by the 5000 ms
  timer, whose callback \<open>cleanup_timeout\<close> sends \<open>SIGKILL\<close> and resolves at once.
\<close>

definition cleanup_begin :: "pool \<Rightarrow> nat list \<times> pool" where
  "cleanup_begin s =
     (map fst (activeProcesses s),
      s\<lparr>memoryCheckInterval := None,
        killed := killed s @ map (\<lambda>(child, _). (child, ''SIGTERM'')) (activeProcesses s)\<rparr>)"

definition cleanup_timeout :: "nat \<Rightarrow> nat list \<times> pool \<Rightarrow> nat list \<times> pool" where
  "cleanup_timeout child ps =
     (removeAll child (fst ps), (snd ps)\<lparr>killed := killed (snd ps) @ [(child, ''SIGKILL'')]\<rparr>)"

text \<open>After \<open>await Promise.all(promises)\<close>: possible once no promise is pending.\<close>

definition cleanup_end :: "nat list \<times> pool \<Rightarrow> pool option" where
  "cleanup_end ps =
     (if fst ps = [] then Some ((snd ps)\<lparr>activeProcesses := []\<rparr>) else None)"

subsection \<open>The handlers of \<open>SIGINT\<close> and \<open>SIGTERM\<close>\<close>

text \<open>
  The state of the orchestrator process: the pool it runs, the module-level
  \<open>globalProgressTracker\<close> and \<open>globalDebugMode\<close>, and the code it exited with.
\<close>

record orchestrator =
  the_pool :: pool
  globalProgressTracker :: "tracker option"
  globalDebugMode :: bool
  exit_code :: "int option"

text \<open>
  The module-level function \<open>cleanup\<close>. Its first statement is \<open>const skipCleanup = true\<close>,
  so it stops the progress tracker, prints a line and returns; the removal of folders
  behind that \<open>return\<close> is never reached.
\<close>

definition cleanup :: "bool \<Rightarrow> bool \<Rightarrow> orchestrator \<Rightarrow> orchestrator" where
  "cleanup skip cleanShared w =
     (let skipCleanup = True;
          w1 = (case globalProgressTracker w of
                  Some t \<Rightarrow>
                    w\<lparr>globalProgressTracker := None,
                      the_pool := console_log (snd (tracker_stop t)) (the_pool w)\<rparr>
                | None \<Rightarrow> w)
      in if skipCleanup then w1\<lparr>the_pool := console_log PreservingState (the_pool w1)\<rparr> else w1)"

text \<open>\<open>process.on("SIGINT", \<dots>)\<close>; the handler of \<open>SIGTERM\<close> has the same body.\<close>

definition on_SIGINT :: "orchestrator \<Rightarrow> orchestrator" where
  "on_SIGINT w =
     (let w1 = w\<lparr>the_pool := console_log CleaningUp (the_pool w)\<rparr>;
          w2 = cleanup (globalDebugMode w1) False w1
      in w2\<lparr>exit_code := Some 0\<rparr>)"

section \<open>Example inputs\<close>

text \<open>A worker result in which the build and the lint passed and the test failed.\<close>

definition ex_evaluation :: evaluationResults where
  "ex_evaluation =
     \<lparr>buildSuccess = True, lintSuccess = True, testSuccess = False,
      buildDuration = Some 1200, lintDuration = None, testDuration = Some 300\<rparr>"

definition ex_modelResult :: modelResult where
  "ex_modelResult = \<lparr>model = Some ''gpt'', evaluation = Some ex_evaluation\<rparr>"

text \<open>A pool configuration with one model, and one with two.\<close>

definition ex_config :: config where
  "ex_config =
     \<lparr>MODELS = [''gpt''], maxProcesses = 2, dryRun = False, verbose = False, debug = False\<rparr>"

definition ex_config2 :: config where
  "ex_config2 =
     \<lparr>MODELS = [''gpt'', ''claude''], maxProcesses = 2, dryRun = False, verbose = False,
      debug = False\<rparr>"

text \<open>The write of a job whose child exited with code 1, and the write of a successful job.\<close>

definition ex_error_write :: write_request where
  "ex_error_write =
     \<lparr>w_evalPath = ''001'', w_status = ''error'', w_result = None,
      w_error = Some ''Process exited with code 1''\<rparr>"

definition ex_success_write :: write_request where
  "ex_success_write =
     \<lparr>w_evalPath = ''001'', w_status = ''success'',
      w_result = Some (Object (Some [ex_modelResult])), w_error = None\<rparr>"

text \<open>
  An environment with 8 GiB of 16 GiB free at every reading, whose \<open>JSON.parse\<close> accepts
  one payload and throws on every other.
\<close>

definition ex_env :: env where
  "ex_env =
     \<lparr>freemem = (\<lambda>k. 8589934592), totalmem = 17179869184,
      JSON_parse = (\<lambda>payload. if payload = ''{modelResults}''
                              then Some (Object (Some [ex_modelResult])) else None)\<rparr>"

text \<open>A ledger with one entry: the result of the model \<open>gpt\<close> on the eval \<open>001\<close>, a failure.\<close>

definition ex_ledger :: "entry list" where
  "ex_ledger =
     [Fulfilled ''001'' ''success'' (Braintrust (transformModelResult 1 ''001'' ex_modelResult))]"

text \<open>
  A pool with a budget of two workers to which the evals \<open>A\<close>, \<open>B\<close> and \<open>C\<close> have been
  submitted, and an output without a result line.
\<close>

definition ex_running :: pool where
  "ex_running = run ex_env ex_config (new_pool None) [Submit ''A'', Submit ''B'', Submit ''C'']"

definition ex_stdout :: string where
  "ex_stdout = ''compiling'' @ [CHR 0x0A] @ ''done'' @ [CHR 0x0A]"

text \<open>
  An environment whose first reading of the free memory is 50 MB and whose later
  readings are 8 GiB, and a pool in which the eval \<open>A\<close> waits.
\<close>

definition ex_env_low :: env where
  "ex_env_low =
     \<lparr>freemem = (\<lambda>k. if k = 0 then 52428800 else 8589934592), totalmem = 17179869184,
      JSON_parse = (\<lambda>payload. None)\<rparr>"

definition ex_waiting :: pool where
  "ex_waiting = (new_pool None)\<lparr>queue := [''A'']\<rparr>"

section \<open>Scores of a stored result\<close>

lemma results_of_transform:
  "modelResults \<noteq> [] \<Longrightarrow>
   results_of (transformToBraintrustFormat now evalPath (Object (Some modelResults)))
     = map (transformModelResult now evalPath) modelResults"
  by (cases modelResults; cases "tl modelResults")
     (auto simp: transformToBraintrustFormat_def results_of_def Let_def)

lemma newResults_success:
  "modelResults \<noteq> [] \<Longrightarrow>
   newResults now evalPath ''success'' (Some (Object (Some modelResults))) err
     = map (\<lambda>mr. Fulfilled evalPath ''success'' (Braintrust (transformModelResult now evalPath mr)))
         modelResults"
  by (cases modelResults; cases "tl modelResults")
     (auto simp: newResults_def transformedResult_def transformToBraintrustFormat_def Let_def)

text \<open>
  Claim C10. For every model result of a successful worker that carries evaluation
  results, the entry stored for it has \<open>build_score\<close>, \<open>lint_score\<close> and \<open>test_score\<close>
  equal to 1 when the sub-check succeeded and to 0 otherwise, and \<open>eval_score\<close> equal to
  their product: 1 exactly when build, lint and test all succeeded, and 0 otherwise.
\<close>

theorem aggregate_score_is_product:
  assumes "mr \<in> set modelResults" and "evaluation mr = Some er"
  shows "Fulfilled evalPath ''success'' (Braintrust (transformModelResult now evalPath mr))
           \<in> set (newResults now evalPath ''success'' (Some (Object (Some modelResults))) err)
         \<and> (\<exists>sc. scores (transformModelResult now evalPath mr) = Some sc
              \<and> score (build_score sc) = (if buildSuccess er then 1 else 0)
              \<and> score (lint_score sc) = (if lintSuccess er then 1 else 0)
              \<and> score (test_score sc) = (if testSuccess er then 1 else 0)
              \<and> score (eval_score sc)
                   = score (build_score sc) * score (lint_score sc) * score (test_score sc)
              \<and> score (eval_score sc)
                   = (if buildSuccess er \<and> lintSuccess er \<and> testSuccess er then 1 else 0))"
proof -
  from assms(1) have ne: "modelResults \<noteq> []" by auto
  have stored:
    "Fulfilled evalPath ''success'' (Braintrust (transformModelResult now evalPath mr))
       \<in> set (newResults now evalPath ''success'' (Some (Object (Some modelResults))) err)"
    using assms(1) by (simp add: newResults_success [OF ne])
  have "\<exists>sc. scores (transformModelResult now evalPath mr) = Some sc
          \<and> score (build_score sc) = (if buildSuccess er then 1 else 0)
          \<and> score (lint_score sc) = (if lintSuccess er then 1 else 0)
          \<and> score (test_score sc) = (if testSuccess er then 1 else 0)
          \<and> score (eval_score sc)
               = score (build_score sc) * score (lint_score sc) * score (test_score sc)
          \<and> score (eval_score sc)
               = (if buildSuccess er \<and> lintSuccess er \<and> testSuccess er then 1 else 0)"
    using assms(2) by (simp add: transformModelResult_def mk_score_def Let_def)
  with stored show ?thesis by blast
qed

theorem aggregate_score_is_product_witness:
  "ex_modelResult \<in> set [ex_modelResult]
   \<and> evaluation ex_modelResult = Some ex_evaluation
   \<and> (\<exists>sc. scores (transformModelResult 17 ''001-x'' ex_modelResult) = Some sc
        \<and> score (build_score sc) = 1 \<and> score (lint_score sc) = 1
        \<and> score (test_score sc) = 0 \<and> score (eval_score sc) = 0)"
proof -
  have m: "ex_modelResult \<in> set [ex_modelResult]" by simp
  have ev: "evaluation ex_modelResult = Some ex_evaluation"
    by (simp add: ex_modelResult_def)
  from aggregate_score_is_product [OF m ev, of "''001-x''" 17 None]
  obtain sc where "scores (transformModelResult 17 ''001-x'' ex_modelResult) = Some sc"
    and "score (build_score sc) = (if buildSuccess ex_evaluation then 1 else 0)"
    and "score (lint_score sc) = (if lintSuccess ex_evaluation then 1 else 0)"
    and "score (test_score sc) = (if testSuccess ex_evaluation then 1 else 0)"
    and "score (eval_score sc)
           = score (build_score sc) * score (lint_score sc) * score (test_score sc)"
    by blast
  then have "scores (transformModelResult 17 ''001-x'' ex_modelResult) = Some sc
        \<and> score (build_score sc) = 1 \<and> score (lint_score sc) = 1
        \<and> score (test_score sc) = 0 \<and> score (eval_score sc) = 0"
    by (simp add: ex_evaluation_def)
  with m ev show ?thesis by blast
qed

section \<open>The merge of \<open>appendResultToFile\<close>\<close>

text \<open>
  The entries of a store that belong to the key \<open>(evalPath, modelName)\<close>, and the rejected
  records of an eval path.
\<close>

fun entry_evalPath :: "entry \<Rightarrow> string" where
  "entry_evalPath (Fulfilled p _ _) = p"
| "entry_evalPath (Rejected p _) = p"

definition entries_of_key :: "string \<Rightarrow> string \<Rightarrow> entry list \<Rightarrow> entry list" where
  "entries_of_key evalPath modelName rs =
     filter (\<lambda>r. entry_evalPath r = evalPath
                \<and> result_experimentName (value_result r) = Some modelName) rs"

definition rejected_of :: "string \<Rightarrow> entry list \<Rightarrow> entry list" where
  "rejected_of evalPath rs =
     filter (\<lambda>r. entry_status r = ''rejected'' \<and> entry_evalPath r = evalPath) rs"

text \<open>
  A call of \<open>appendResultToFile\<close> is the clock reading of its transformation and its
  arguments; \<open>call_news\<close> are the entries it supplies.
\<close>

definition call_news :: "nat \<times> write_request \<Rightarrow> entry list" where
  "call_news c =
     newResults (fst c) (w_evalPath (snd c)) (w_status (snd c)) (w_result (snd c))
       (w_error (snd c))"

text \<open>
  What a merge for the eval path \<open>p\<close> with the new model names \<open>names\<close> removes from the
  store: the fulfilled entries of \<open>p\<close> that carry no \<open>experimentName\<close> (or an empty one)
  or whose \<open>experimentName\<close> is one of \<open>names\<close>. A rejected record is never removed.
\<close>

definition removed_by :: "string \<Rightarrow> string list \<Rightarrow> entry \<Rightarrow> bool" where
  "removed_by p names r =
     (case r of
        Fulfilled q st res \<Rightarrow>
          q = p \<and> (case result_experimentName res of
                     None \<Rightarrow> True
                   | Some m \<Rightarrow> m = [] \<or> m \<in> set names)
      | Rejected q err \<Rightarrow> False)"

lemma set_foldl_set_add: "set (foldl set_add xs ys) = set xs \<union> set ys"
  by (induction ys arbitrary: xs) (auto simp: set_add_def)

lemma newModelNames_set:
  "set (newModelNames news) =
     {m. m \<noteq> [] \<and> (\<exists>r \<in> set news. entry_status r = ''fulfilled''
            \<and> result_experimentName (value_result r) = Some m)}"
  by (auto simp: newModelNames_def set_foldl_set_add truthy_def str_def
           split: option.splits if_splits)

lemma allResults_append:
  "allResults (appendResultToFile cfg now True w s) = merged now w (allResults s)"
  by (simp add: appendResultToFile_def allResults_def console_log_def Let_def)

lemma entries_of_key_kept:
  assumes "m \<in> set names"
  shows "entries_of_key p m (filter (keep_existing p names) rs) = []"
  unfolding entries_of_key_def filter_empty_conv
proof (intro ballI notI, elim conjE)
  fix r
  assume r: "r \<in> set (filter (keep_existing p names) rs)"
    and p: "entry_evalPath r = p"
    and n: "result_experimentName (value_result r) = Some m"
  from n p obtain st res where "r = Fulfilled p st res" by (cases r) auto
  with r n assms show False by (auto simp: keep_existing_def str_def truthy_def)
qed

lemma merged_key:
  assumes "m \<noteq> []"
    and "entries_of_key p m (newResults now p (w_status w) (w_result w) (w_error w)) = [new]"
    and "w_evalPath w = p"
  shows "entries_of_key p m (merged now w rs) = [new]"
proof -
  let ?news = "newResults now p (w_status w) (w_result w) (w_error w)"
  from assms(2) have "new \<in> set (entries_of_key p m ?news)" by simp
  then have "new \<in> set ?news" "result_experimentName (value_result new) = Some m"
    by (auto simp: entries_of_key_def)
  moreover from this(2) have "entry_status new = ''fulfilled''" by (cases new) auto
  ultimately have "m \<in> set (newModelNames ?news)"
    using assms(1) by (auto simp: newModelNames_set)
  then show ?thesis
    using assms(2,3) entries_of_key_kept [of m "newModelNames ?news" p rs]
    by (simp add: merged_def Let_def entries_of_key_def)
qed

lemma newResults_error:
  "status \<noteq> ''success'' \<Longrightarrow> newResults now p status result err = [Rejected p err]"
  by (auto simp: newResults_def transformedResult_def split: option.splits worker_result.splits)

lemma rejected_kept: "rejected_of p (filter (keep_existing q names) rs) = rejected_of p rs"
proof -
  have "entry_status r = ''rejected'' \<Longrightarrow> keep_existing q names r" for r
    by (cases r) (auto simp: keep_existing_def)
  then show ?thesis
    unfolding rejected_of_def filter_filter by (intro filter_cong) auto
qed

lemma rejected_of_append: "rejected_of p (xs @ ys) = rejected_of p xs @ rejected_of p ys"
  by (simp add: rejected_of_def)

lemma merged_error:
  assumes "w_status w \<noteq> ''success''" and "w_evalPath w = p"
  shows "rejected_of p (merged now w rs) = rejected_of p rs @ [Rejected p (w_error w)]"
proof -
  have "merged now w rs
          = filter (keep_existing p (newModelNames [Rejected p (w_error w)])) rs
              @ [Rejected p (w_error w)]"
    using assms by (simp add: merged_def newResults_error Let_def)
  moreover have "rejected_of p [Rejected p (w_error w)] = [Rejected p (w_error w)]"
    by (simp add: rejected_of_def)
  ultimately show ?thesis by (simp add: rejected_of_append rejected_kept)
qed

lemma newResults_evalPath:
  "r \<in> set (newResults now p status result err) \<Longrightarrow> entry_evalPath r = p"
  by (auto simp: newResults_def split: option.splits transformed.splits if_splits)

lemma keep_existing_removed_by: "keep_existing p names r \<longleftrightarrow> \<not> removed_by p names r"
  by (cases r)
     (auto simp: keep_existing_def removed_by_def truthy_def str_def Let_def split: option.splits)

lemma merged_exact:
  "merged now w rs
     = filter (\<lambda>r. \<not> removed_by (w_evalPath w)
                      (newModelNames (newResults now (w_evalPath w) (w_status w) (w_result w)
                         (w_error w))) r) rs
         @ newResults now (w_evalPath w) (w_status w) (w_result w) (w_error w)"
proof -
  have "keep_existing p names = (\<lambda>r. \<not> removed_by p names r)" for p names
    by (rule ext) (rule keep_existing_removed_by)
  then show ?thesis by (simp add: merged_def Let_def)
qed

lemma newModelNames_error:
  "status \<noteq> ''success'' \<Longrightarrow> newModelNames (newResults now p status result err) = []"
  by (simp add: newResults_error newModelNames_def)

lemma newResults_success_removed:
  assumes "r \<in> set (newResults now p ''success'' result err)"
  shows "removed_by p (newModelNames (newResults now p ''success'' result err)) r"
proof -
  from assms have p: "entry_evalPath r = p" by (rule newResults_evalPath)
  from assms have f: "entry_status r = ''fulfilled''"
    by (auto simp: newResults_def split: option.splits transformed.splits)
  then obtain q st res where r: "r = Fulfilled q st res" by (cases r) auto
  with p have q: "q = p" by simp
  show ?thesis
  proof (cases "result_experimentName res")
    case None
    with r q show ?thesis by (simp add: removed_by_def)
  next
    case (Some m)
    show ?thesis
    proof (cases "m = []")
      case True
      with Some r q show ?thesis by (simp add: removed_by_def)
    next
      case False
      from f Some r have "entry_status r = ''fulfilled''
          \<and> result_experimentName (value_result r) = Some m" by simp
      with assms False
      have "m \<in> set (newModelNames (newResults now p ''success'' result err))"
        unfolding newModelNames_set by blast
      with Some r q show ?thesis by (simp add: removed_by_def)
    qed
  qed
qed

lemma merged_success_replaces:
  assumes "w_status w = ''success''"
  shows "filter (removed_by (w_evalPath w)
                   (newModelNames (newResults now (w_evalPath w) (w_status w) (w_result w)
                      (w_error w))))
           (merged now w rs)
         = newResults now (w_evalPath w) (w_status w) (w_result w) (w_error w)"
proof -
  let ?news = "newResults now (w_evalPath w) (w_status w) (w_result w) (w_error w)"
  have "filter (removed_by (w_evalPath w) (newModelNames ?news)) ?news = ?news"
    using assms by (simp add: filter_id_conv newResults_success_removed)
  then show ?thesis by (simp add: merged_exact)
qed

lemma merged_error_exact:
  assumes "w_status w \<noteq> ''success''"
  shows "merged now w rs
           = filter (\<lambda>r. \<not> removed_by (w_evalPath w) [] r) rs
               @ [Rejected (w_evalPath w) (w_error w)]"
proof -
  have "newModelNames [Rejected (w_evalPath w) (w_error w)] = []"
    by (simp add: newModelNames_def)
  with assms show ?thesis by (simp add: merged_exact newResults_error)
qed

lemma removed_by_idem:
  "filter (\<lambda>r. \<not> removed_by p names r) (filter (\<lambda>r. \<not> removed_by p names r) rs)
     = filter (\<lambda>r. \<not> removed_by p names r) rs"
  by simp

text \<open>
  Claim C2, as stated, fails on the error-record path: two calls of
  \<open>appendResultToFile\<close> for the same eval path with status \<open>error\<close> leave two records in
  the store, not one.
\<close>

theorem error_record_appended_twice:
  "allResults (appendResultToFile ex_config 2 True ex_error_write
     (appendResultToFile ex_config 1 True ex_error_write (new_pool None)))
   = [Rejected ''001'' (Some ''Process exited with code 1''),
      Rejected ''001'' (Some ''Process exited with code 1'')]"
  by (simp add: allResults_append)
     (simp add: allResults_def new_pool_def merged_def newResults_def transformedResult_def
        newModelNames_def ex_error_write_def keep_existing_def)

lemma call_news_eq:
  "w_evalPath w = p \<Longrightarrow>
   newResults now p (w_status w) (w_result w) (w_error w) = call_news (now, w)"
  by (simp add: call_news_def)

text \<open>
  Claim C2, amended. Two calls of \<open>appendResultToFile\<close> for the same eval path \<open>p\<close>, on
  any store and whatever the first call was. When the second call has the status
  \<open>success\<close>, the fulfilled entries of \<open>p\<close> that carry no \<open>experimentName\<close> or one of the
  model names of the second call are afterwards exactly the entries the second call
  supplied; so a key \<open>(p, m)\<close> for which it supplied one entry has that entry and no
  other. When the second call has another status, its rejected record is appended: the
  rejected records of \<open>p\<close> stay, the only entries removed are the fulfilled entries of
  \<open>p\<close> without \<open>experimentName\<close>, and two such calls leave two records behind all other
  entries.
\<close>

theorem append_twice_replaces:
  assumes "w_evalPath w1 = p" and "w_evalPath w2 = p"
  shows "(w_status w2 = ''success''
            \<longrightarrow> filter (removed_by p (newModelNames (call_news (now2, w2))))
                  (allResults (appendResultToFile cfg now2 True w2
                     (appendResultToFile cfg now1 True w1 s)))
                = call_news (now2, w2))
         \<and> (m \<noteq> [] \<and> entries_of_key p m (call_news (now2, w2)) = [new]
            \<longrightarrow> entries_of_key p m
                  (allResults (appendResultToFile cfg now2 True w2
                     (appendResultToFile cfg now1 True w1 s))) = [new])
         \<and> (w_status w2 \<noteq> ''success''
            \<longrightarrow> allResults (appendResultToFile cfg now2 True w2
                     (appendResultToFile cfg now1 True w1 s))
                = filter (\<lambda>r. \<not> removed_by p [] r)
                    (allResults (appendResultToFile cfg now1 True w1 s))
                    @ [Rejected p (w_error w2)]
              \<and> rejected_of p
                  (allResults (appendResultToFile cfg now2 True w2
                     (appendResultToFile cfg now1 True w1 s)))
                = rejected_of p (allResults (appendResultToFile cfg now1 True w1 s))
                    @ [Rejected p (w_error w2)])
         \<and> (w_status w1 \<noteq> ''success'' \<and> w_status w2 \<noteq> ''success''
            \<longrightarrow> allResults (appendResultToFile cfg now2 True w2
                     (appendResultToFile cfg now1 True w1 s))
                = filter (\<lambda>r. \<not> removed_by p [] r) (allResults s)
                    @ [Rejected p (w_error w1), Rejected p (w_error w2)])"
proof (intro conjI impI)
  let ?s1 = "appendResultToFile cfg now1 True w1 s"
  let ?s2 = "appendResultToFile cfg now2 True w2 ?s1"
  have news2: "newResults now2 p (w_status w2) (w_result w2) (w_error w2) = call_news (now2, w2)"
    using assms(2) by (rule call_news_eq)
  show "filter (removed_by p (newModelNames (call_news (now2, w2)))) (allResults ?s2)
          = call_news (now2, w2)"
    if "w_status w2 = ''success''"
    using merged_success_replaces [OF that, of now2 "allResults ?s1"]
    by (simp add: allResults_append assms(2) news2)
  show "entries_of_key p m (allResults ?s2) = [new]"
    if "m \<noteq> [] \<and> entries_of_key p m (call_news (now2, w2)) = [new]"
    using that assms(2) by (simp add: allResults_append merged_key news2 [symmetric])
  show "allResults ?s2
          = filter (\<lambda>r. \<not> removed_by p [] r) (allResults ?s1) @ [Rejected p (w_error w2)]"
    if "w_status w2 \<noteq> ''success''"
    using merged_error_exact [OF that, of now2 "allResults ?s1"]
    by (simp add: allResults_append assms(2))
  show "rejected_of p (allResults ?s2)
          = rejected_of p (allResults ?s1) @ [Rejected p (w_error w2)]"
    if "w_status w2 \<noteq> ''success''"
    using that assms(2) by (simp add: allResults_append merged_error)
  show "allResults ?s2
          = filter (\<lambda>r. \<not> removed_by p [] r) (allResults s)
              @ [Rejected p (w_error w1), Rejected p (w_error w2)]"
    if both: "w_status w1 \<noteq> ''success'' \<and> w_status w2 \<noteq> ''success''"
  proof -
    have r: "\<not> removed_by p [] (Rejected p (w_error w1))" by (simp add: removed_by_def)
    from both have "allResults ?s1
        = filter (\<lambda>r. \<not> removed_by p [] r) (allResults s) @ [Rejected p (w_error w1)]"
      using merged_error_exact [of w1 now1 "allResults s"]
      by (simp add: allResults_append assms(1))
    moreover from both have "allResults ?s2
        = filter (\<lambda>r. \<not> removed_by p [] r) (allResults ?s1) @ [Rejected p (w_error w2)]"
      using merged_error_exact [of w2 now2 "allResults ?s1"]
      by (simp add: allResults_append assms(2))
    ultimately show ?thesis using r by simp
  qed
qed

theorem append_twice_replaces_witness:
  "w_evalPath ex_success_write = ''001''
   \<and> w_status ex_success_write = ''success''
   \<and> ''gpt'' \<noteq> []
   \<and> entries_of_key ''001'' ''gpt'' (call_news (2, ex_success_write))
      = [Fulfilled ''001'' ''success'' (Braintrust (transformModelResult 2 ''001'' ex_modelResult))]
   \<and> entries_of_key ''001'' ''gpt''
        (allResults (appendResultToFile ex_config 2 True ex_success_write
           (appendResultToFile ex_config 1 True ex_success_write (new_pool None))))
      = [Fulfilled ''001'' ''success'' (Braintrust (transformModelResult 2 ''001'' ex_modelResult))]
   \<and> filter (removed_by ''001'' (newModelNames (call_news (2, ex_success_write))))
        (allResults (appendResultToFile ex_config 2 True ex_success_write
           (appendResultToFile ex_config 1 True ex_success_write (new_pool None))))
      = call_news (2, ex_success_write)
   \<and> w_evalPath ex_error_write = ''001''
   \<and> w_status ex_error_write \<noteq> ''success''
   \<and> allResults (appendResultToFile ex_config 2 True ex_error_write
        (appendResultToFile ex_config 1 True ex_error_write
           (new_pool (Some [Fulfilled ''001'' ''success'' NoResult,
                            Fulfilled ''002'' ''success'' NoResult]))))
      = [Fulfilled ''002'' ''success'' NoResult,
         Rejected ''001'' (w_error ex_error_write), Rejected ''001'' (w_error ex_error_write)]
   \<and> rejected_of ''001''
        (allResults (appendResultToFile ex_config 2 True ex_error_write
           (appendResultToFile ex_config 1 True ex_error_write (new_pool None))))
      = rejected_of ''001''
          (allResults (appendResultToFile ex_config 1 True ex_error_write (new_pool None)))
          @ [Rejected ''001'' (w_error ex_error_write)]"
proof -
  let ?store = "new_pool (Some [Fulfilled ''001'' ''success'' NoResult,
                                Fulfilled ''002'' ''success'' NoResult])"
  have p: "w_evalPath ex_success_write = ''001''"
    and ok: "w_status ex_success_write = ''success''"
    by (simp_all add: ex_success_write_def)
  have ne: "''gpt'' \<noteq> []" by simp
  have news: "entries_of_key ''001'' ''gpt'' (call_news (2, ex_success_write))
      = [Fulfilled ''001'' ''success'' (Braintrust (transformModelResult 2 ''001'' ex_modelResult))]"
    by (simp add: call_news_def ex_success_write_def newResults_success entries_of_key_def)
       (simp add: transformModelResult_def ex_modelResult_def ex_evaluation_def Let_def)
  have q: "w_evalPath ex_error_write = ''001''" and st: "w_status ex_error_write \<noteq> ''success''"
    by (simp_all add: ex_error_write_def)
  note succ = append_twice_replaces
    [OF p p, of 2 ex_config 1 "new_pool None" "''gpt''"
       "Fulfilled ''001'' ''success'' (Braintrust (transformModelResult 2 ''001'' ex_modelResult))"]
  note err = append_twice_replaces [OF q q, of 2 ex_config 1 "new_pool None" "''gpt''" "Rejected [] None"]
  note err2 = append_twice_replaces [OF q q, of 2 ex_config 1 ?store "''gpt''" "Rejected [] None"]
  from ne news
  have prem: "''gpt'' \<noteq> [] \<and> entries_of_key ''001'' ''gpt'' (call_news (2, ex_success_write))
      = [Fulfilled ''001'' ''success'' (Braintrust (transformModelResult 2 ''001'' ex_modelResult))]"
    by (rule conjI)
  from st have both: "w_status ex_error_write \<noteq> ''success'' \<and> w_status ex_error_write \<noteq> ''success''"
    by simp
  have a: "filter (removed_by ''001'' (newModelNames (call_news (2, ex_success_write))))
        (allResults (appendResultToFile ex_config 2 True ex_success_write
           (appendResultToFile ex_config 1 True ex_success_write (new_pool None))))
      = call_news (2, ex_success_write)"
    by (rule succ [THEN conjunct1, THEN mp, OF ok])
  have b: "entries_of_key ''001'' ''gpt''
        (allResults (appendResultToFile ex_config 2 True ex_success_write
           (appendResultToFile ex_config 1 True ex_success_write (new_pool None))))
      = [Fulfilled ''001'' ''success'' (Braintrust (transformModelResult 2 ''001'' ex_modelResult))]"
    by (rule succ [THEN conjunct2, THEN conjunct1, THEN mp, OF prem])
  have c: "rejected_of ''001''
        (allResults (appendResultToFile ex_config 2 True ex_error_write
           (appendResultToFile ex_config 1 True ex_error_write (new_pool None))))
      = rejected_of ''001''
          (allResults (appendResultToFile ex_config 1 True ex_error_write (new_pool None)))
          @ [Rejected ''001'' (w_error ex_error_write)]"
    by (rule err [THEN conjunct2, THEN conjunct2, THEN conjunct1, THEN mp, OF st, THEN conjunct2])
  have "allResults (appendResultToFile ex_config 2 True ex_error_write
        (appendResultToFile ex_config 1 True ex_error_write ?store))
      = filter (\<lambda>r. \<not> removed_by ''001'' [] r) (allResults ?store)
          @ [Rejected ''001'' (w_error ex_error_write), Rejected ''001'' (w_error ex_error_write)]"
    by (rule err2 [THEN conjunct2, THEN conjunct2, THEN conjunct2, THEN mp, OF both])
  then have d: "allResults (appendResultToFile ex_config 2 True ex_error_write
        (appendResultToFile ex_config 1 True ex_error_write ?store))
      = [Fulfilled ''002'' ''success'' NoResult,
         Rejected ''001'' (w_error ex_error_write), Rejected ''001'' (w_error ex_error_write)]"
    by (simp add: allResults_def new_pool_def removed_by_def)
  from p ok ne news b a q st d c show ?thesis by (intro conjI)
qed

section \<open>The frame of a merge\<close>

text \<open>
  A sequence of calls of \<open>appendResultToFile\<close>, each run to its end before the next
  starts, as \<open>fileWriteQueue\<close> orders them: a call is the clock reading of its
  transformation and its arguments.
\<close>

definition append_all :: "config \<Rightarrow> (nat \<times> write_request) list \<Rightarrow> pool \<Rightarrow> pool" where
  "append_all cfg calls s = foldl (\<lambda>s' (now, w). appendResultToFile cfg now True w s') s calls"

text \<open>The key of a call that supplies one entry with a model name.\<close>

definition call_key :: "nat \<times> write_request \<Rightarrow> (string \<times> string) option" where
  "call_key c =
     (case call_news c of
        [r] \<Rightarrow>
          (case result_experimentName (value_result r) of
             Some m \<Rightarrow> if m \<noteq> [] then Some (entry_evalPath r, m) else None
           | None \<Rightarrow> None)
      | _ \<Rightarrow> None)"

lemma entries_of_key_append:
  "entries_of_key q n (xs @ ys) = entries_of_key q n xs @ entries_of_key q n ys"
  by (simp add: entries_of_key_def)

lemma entries_of_key_frame_kept:
  assumes "n \<noteq> []" and "q \<noteq> p \<or> n \<notin> set names"
  shows "entries_of_key q n (filter (keep_existing p names) rs) = entries_of_key q n rs"
proof -
  have "keep_existing p names r"
    if "entry_evalPath r = q" and "result_experimentName (value_result r) = Some n" for r
    using that assms by (cases r) (auto simp: keep_existing_def truthy_def str_def)
  then show ?thesis
    unfolding entries_of_key_def filter_filter by (intro filter_cong) auto
qed

lemma entries_of_key_frame_news:
  assumes "n \<noteq> []"
    and "q \<noteq> p \<or> n \<notin> set (newModelNames (newResults now p status result err))"
  shows "entries_of_key q n (newResults now p status result err) = []"
  unfolding entries_of_key_def filter_empty_conv
proof (intro ballI notI, elim conjE)
  fix r
  assume r: "r \<in> set (newResults now p status result err)"
    and q: "entry_evalPath r = q"
    and n: "result_experimentName (value_result r) = Some n"
  from r have "entry_evalPath r = p" by (rule newResults_evalPath)
  moreover from n have "entry_status r = ''fulfilled''" by (cases r) auto
  with r n assms(1) have "n \<in> set (newModelNames (newResults now p status result err))"
    by (auto simp: newModelNames_set)
  ultimately show False using assms(2) q by auto
qed

lemma merged_frame:
  assumes "n \<noteq> []"
    and "q \<noteq> w_evalPath w
         \<or> n \<notin> set (newModelNames
                      (newResults now (w_evalPath w) (w_status w) (w_result w) (w_error w)))"
  shows "entries_of_key q n (merged now w rs) = entries_of_key q n rs"
  using assms
  by (simp add: merged_def Let_def entries_of_key_append entries_of_key_frame_kept
        entries_of_key_frame_news)

lemma merged_rejected:
  "rejected_of q (merged now w rs)
     = rejected_of q rs
         @ rejected_of q (newResults now (w_evalPath w) (w_status w) (w_result w) (w_error w))"
  by (simp add: merged_def Let_def rejected_of_append rejected_kept)

lemma allResults_append_all_snoc:
  "allResults (append_all cfg (calls @ [c]) s)
     = merged (fst c) (snd c) (allResults (append_all cfg calls s))"
  by (cases c) (simp add: append_all_def allResults_append)

lemma call_key_news:
  assumes "call_key c = Some (p, m)"
  obtains r where "call_news c = [r]" and "entry_evalPath r = p"
    and "result_experimentName (value_result r) = Some m" and "m \<noteq> []"
    and "entry_status r = ''fulfilled''"
proof -
  from assms obtain r where c: "call_news c = [r]"
    by (auto simp: call_key_def split: list.splits)
  with assms have r: "entry_evalPath r = p" "result_experimentName (value_result r) = Some m"
      "m \<noteq> []"
    by (auto simp: call_key_def split: option.splits if_splits)
  from r(2) have "entry_status r = ''fulfilled''" by (cases r) auto
  with c r show ?thesis by (rule that)
qed

lemma call_key_evalPath:
  assumes "call_key c = Some (p, m)"
  shows "w_evalPath (snd c) = p"
proof -
  from assms obtain r where news: "call_news c = [r]" and r: "entry_evalPath r = p"
    by (rule call_key_news)
  from news have "r \<in> set (newResults (fst c) (w_evalPath (snd c)) (w_status (snd c))
                          (w_result (snd c)) (w_error (snd c)))"
    by (simp add: call_news_def)
  then have "entry_evalPath r = w_evalPath (snd c)" by (rule newResults_evalPath)
  with r show ?thesis by simp
qed

lemma call_key_single:
  assumes "call_key c \<noteq> None"
  shows "\<exists>r. call_news c = [r]"
proof -
  from assms obtain p m where "call_key c = Some (p, m)" by (cases "call_key c") auto
  then obtain r where "call_news c = [r]" by (rule call_key_news)
  then show ?thesis by blast
qed

lemma append_all_distinct:
  assumes "list_all (\<lambda>c. call_key c \<noteq> None) calls" and "distinct (map call_key calls)"
  shows "allResults (append_all cfg calls (new_pool None)) = concat (map call_news calls)"
  using assms
proof (induction calls rule: rev_induct)
  case Nil
  then show ?case by (simp add: append_all_def allResults_def new_pool_def)
next
  case (snoc c calls)
  from snoc.prems obtain p m where key: "call_key c = Some (p, m)"
    by (cases "call_key c") auto
  then obtain r where news: "call_news c = [r]" and m: "m \<noteq> []"
    and name: "result_experimentName (value_result r) = Some m"
    and st: "entry_status r = ''fulfilled''"
    by (rule call_key_news)
  from key have p: "w_evalPath (snd c) = p" by (rule call_key_evalPath)
  from news name st m have names: "newModelNames (call_news c) = [m]"
    by (simp add: newModelNames_def truthy_def str_def set_add_def)
  have IH: "allResults (append_all cfg calls (new_pool None)) = concat (map call_news calls)"
    using snoc by simp
  have kept: "keep_existing p [m] x" if x: "x \<in> set (concat (map call_news calls))" for x
  proof -
    from x obtain d where d: "d \<in> set calls" and xd: "x \<in> set (call_news d)" by auto
    from snoc.prems(1) d obtain q n where dk: "call_key d = Some (q, n)"
      by (cases "call_key d") (auto simp: list_all_iff)
    then obtain y where "call_news d = [y]" and "entry_evalPath y = q"
      and "result_experimentName (value_result y) = Some n" and "n \<noteq> []"
      and "entry_status y = ''fulfilled''"
      by (rule call_key_news)
    with xd have xq: "entry_evalPath x = q" "result_experimentName (value_result x) = Some n"
      "n \<noteq> []"
      by auto
    from snoc.prems(2) have "call_key c \<notin> call_key ` set calls" by simp
    with d have "call_key d \<noteq> call_key c" by (metis imageI)
    with dk key have "(q, n) \<noteq> (p, m)" by auto
    with xq show ?thesis by (cases x) (auto simp: keep_existing_def truthy_def str_def)
  qed
  have "allResults (append_all cfg (calls @ [c]) (new_pool None))
          = filter (keep_existing p [m]) (concat (map call_news calls)) @ call_news c"
    using names p
    by (simp add: allResults_append_all_snoc IH merged_def Let_def call_news_def)
  also have "filter (keep_existing p [m]) (concat (map call_news calls))
               = concat (map call_news calls)"
    using kept by (simp add: filter_id_conv)
  finally show ?case by simp
qed

lemma length_concat_singletons:
  "list_all (\<lambda>c. \<exists>r. f c = [r]) cs \<Longrightarrow> length (concat (map f cs)) = length cs"
  by (induction cs) auto

text \<open>
  Claim C5, as stated, fails on a store that holds an entry in one of the legacy formats
  that \<open>loadCompletedEvals\<close> reads: the entry below records the key \<open>001_claude\<close>, and
  the merge of a result for the key \<open>(001, gpt)\<close> removes it.
\<close>

theorem legacy_entry_dropped_by_merge:
  "keys_of_result ex_config2 (Fulfilled ''001'' ''success'' (LegacyModelResults [''claude'']))
     = [''001_claude'']
   \<and> completed_after 1 ex_success_write = [''001_gpt'']
   \<and> allResults (appendResultToFile ex_config2 1 True ex_success_write
        (new_pool (Some [Fulfilled ''001'' ''success'' (LegacyModelResults [''claude''])])))
      = [Fulfilled ''001'' ''success'' (Braintrust (transformModelResult 1 ''001'' ex_modelResult))]"
proof -
  have "newResults 1 ''001'' ''success'' (Some (Object (Some [ex_modelResult]))) None
          = [Fulfilled ''001'' ''success'' (Braintrust (transformModelResult 1 ''001'' ex_modelResult))]"
    by (simp add: newResults_success)
  then have "allResults (appendResultToFile ex_config2 1 True ex_success_write
        (new_pool (Some [Fulfilled ''001'' ''success'' (LegacyModelResults [''claude''])])))
      = [Fulfilled ''001'' ''success'' (Braintrust (transformModelResult 1 ''001'' ex_modelResult))]"
    by (simp add: allResults_append merged_def ex_success_write_def)
       (simp add: allResults_def new_pool_def keep_existing_def truthy_def)
  moreover have "keys_of_result ex_config2
        (Fulfilled ''001'' ''success'' (LegacyModelResults [''claude''])) = [''001_claude'']"
    by (simp add: keys_of_result_def truthy_def key_of_def str_def)
  moreover have "completed_after 1 ex_success_write = [''001_gpt'']"
    by (simp add: completed_after_def ex_success_write_def transformedResult_def
          results_of_transform)
       (simp add: transformModelResult_def ex_modelResult_def ex_evaluation_def Let_def
          truthy_def key_of_def str_def)
  ultimately show ?thesis by simp
qed

lemma merged_other_paths:
  "filter (\<lambda>r. entry_evalPath r \<noteq> w_evalPath w) (merged now w rs)
     = filter (\<lambda>r. entry_evalPath r \<noteq> w_evalPath w) rs"
proof -
  let ?news = "newResults now (w_evalPath w) (w_status w) (w_result w) (w_error w)"
  have "filter (\<lambda>r. entry_evalPath r \<noteq> w_evalPath w) ?news = []"
    by (auto simp: filter_empty_conv dest: newResults_evalPath)
  moreover have "entry_evalPath r \<noteq> p \<Longrightarrow> \<not> removed_by p names r" for r p names
    by (cases r) (auto simp: removed_by_def)
  then have "filter (\<lambda>r. entry_evalPath r \<noteq> w_evalPath w)
               (filter (\<lambda>r. \<not> removed_by (w_evalPath w) (newModelNames ?news) r) rs)
             = filter (\<lambda>r. entry_evalPath r \<noteq> w_evalPath w) rs"
    unfolding filter_filter by (intro filter_cong) auto
  ultimately show ?thesis by (simp add: merged_exact)
qed

lemma experimentName_transformModelResult:
  "experimentName (transformModelResult now p mr)
     = (case evaluation mr of
          Some er \<Rightarrow> model mr
        | None \<Rightarrow> Some (or_default (model mr) ''Unknown Model''))"
  by (simp add: transformModelResult_def createDefaultBraintrustResult_def Let_def
        split: option.splits)

lemma ex_call_news:
  "call_news (now, \<lparr>w_evalPath = p, w_status = ''success'',
                    w_result = Some (Object (Some [ex_modelResult])), w_error = None\<rparr>)
     = [Fulfilled p ''success'' (Braintrust (transformModelResult now p ex_modelResult))]"
  by (simp add: call_news_def newResults_success)

lemma ex_call_key:
  "call_key (now, \<lparr>w_evalPath = p, w_status = ''success'',
                   w_result = Some (Object (Some [ex_modelResult])), w_error = None\<rparr>)
     = Some (p, ''gpt'')"
  by (simp add: call_key_def ex_call_news experimentName_transformModelResult)
     (simp add: ex_modelResult_def)

text \<open>
  Claim C5, amended. A merge for the eval path \<open>p\<close> keeps every entry of the store, in
  its place, except the fulfilled entries of \<open>p\<close> whose \<open>experimentName\<close> is missing,
  empty or a model name of the new results, and appends the new results. So the entries
  of every other eval path stay, with or without an \<open>experimentName\<close>; every rejected
  record stays; and the entries of every key \<open>(q, n)\<close> with a non-empty model name \<open>n\<close>
  stay unless \<open>q = p\<close> and \<open>n\<close> is a model name of the new results. Consequently \<open>N\<close>
  merges run one after the other from an empty store, each supplying one entry with a
  model name, with \<open>N\<close> distinct keys, leave exactly the \<open>N\<close> entries supplied.
\<close>

theorem merge_frame_and_count:
  "allResults (appendResultToFile cfg now True w s)
     = filter (\<lambda>r. \<not> removed_by (w_evalPath w) (newModelNames (call_news (now, w))) r)
         (allResults s)
         @ call_news (now, w)
   \<and> filter (\<lambda>r. entry_evalPath r \<noteq> w_evalPath w) (allResults (appendResultToFile cfg now True w s))
       = filter (\<lambda>r. entry_evalPath r \<noteq> w_evalPath w) (allResults s)
   \<and> rejected_of q (allResults (appendResultToFile cfg now True w s))
       = rejected_of q (allResults s) @ rejected_of q (call_news (now, w))
   \<and> (n \<noteq> [] \<and> (q \<noteq> w_evalPath w \<or> n \<notin> set (newModelNames (call_news (now, w))))
     \<longrightarrow> entries_of_key q n (allResults (appendResultToFile cfg now True w s))
          = entries_of_key q n (allResults s))
   \<and> (list_all (\<lambda>c. call_key c \<noteq> None) calls \<and> distinct (map call_key calls)
       \<longrightarrow> allResults (append_all cfg calls (new_pool None)) = concat (map call_news calls)
           \<and> length (allResults (append_all cfg calls (new_pool None))) = length calls)"
proof (intro conjI impI)
  show "allResults (appendResultToFile cfg now True w s)
     = filter (\<lambda>r. \<not> removed_by (w_evalPath w) (newModelNames (call_news (now, w))) r)
         (allResults s)
         @ call_news (now, w)"
    by (simp add: allResults_append merged_exact call_news_def)
next
  show "filter (\<lambda>r. entry_evalPath r \<noteq> w_evalPath w)
          (allResults (appendResultToFile cfg now True w s))
       = filter (\<lambda>r. entry_evalPath r \<noteq> w_evalPath w) (allResults s)"
    by (simp add: allResults_append merged_other_paths)
next
  show "rejected_of q (allResults (appendResultToFile cfg now True w s))
       = rejected_of q (allResults s) @ rejected_of q (call_news (now, w))"
    by (simp add: allResults_append merged_rejected call_news_def)
next
  assume "n \<noteq> [] \<and> (q \<noteq> w_evalPath w \<or> n \<notin> set (newModelNames (call_news (now, w))))"
  then show "entries_of_key q n (allResults (appendResultToFile cfg now True w s))
          = entries_of_key q n (allResults s)"
    by (simp add: allResults_append merged_frame call_news_def)
next
  assume a: "list_all (\<lambda>c. call_key c \<noteq> None) calls \<and> distinct (map call_key calls)"
  then show eq: "allResults (append_all cfg calls (new_pool None)) = concat (map call_news calls)"
    by (simp add: append_all_distinct)
  from a have "list_all (\<lambda>c. \<exists>r. call_news c = [r]) calls"
    by (simp add: list_all_iff call_key_single)
  then show "length (allResults (append_all cfg calls (new_pool None))) = length calls"
    by (simp add: eq length_concat_singletons)
qed

theorem merge_frame_and_count_witness:
  "''gpt'' \<noteq> []
   \<and> ''002'' \<noteq> w_evalPath ex_success_write
   \<and> entries_of_key ''002'' ''gpt''
        (allResults (appendResultToFile ex_config 2 True ex_success_write
           (appendResultToFile ex_config 1 True (ex_success_write\<lparr>w_evalPath := ''002''\<rparr>)
              (new_pool (Some [Fulfilled ''003'' ''success'' (LegacyModelResults [''claude''])])))))
      = [Fulfilled ''002'' ''success'' (Braintrust (transformModelResult 1 ''002'' ex_modelResult))]
   \<and> filter (\<lambda>r. entry_evalPath r \<noteq> w_evalPath ex_success_write)
        (allResults (appendResultToFile ex_config 2 True ex_success_write
           (appendResultToFile ex_config 1 True (ex_success_write\<lparr>w_evalPath := ''002''\<rparr>)
              (new_pool (Some [Fulfilled ''003'' ''success'' (LegacyModelResults [''claude''])])))))
      = [Fulfilled ''003'' ''success'' (LegacyModelResults [''claude'']),
         Fulfilled ''002'' ''success'' (Braintrust (transformModelResult 1 ''002'' ex_modelResult))]
   \<and> list_all (\<lambda>c. call_key c \<noteq> None)
        [(1, ex_success_write\<lparr>w_evalPath := ''002''\<rparr>), (2, ex_success_write)]
   \<and> distinct (map call_key
        [(1, ex_success_write\<lparr>w_evalPath := ''002''\<rparr>), (2, ex_success_write)])
   \<and> length (allResults (append_all ex_config
        [(1, ex_success_write\<lparr>w_evalPath := ''002''\<rparr>), (2, ex_success_write)]
        (new_pool None))) = 2"
proof -
  let ?w2 = "ex_success_write\<lparr>w_evalPath := ''002''\<rparr>"
  let ?legacy = "Fulfilled ''003'' ''success'' (LegacyModelResults [''claude''])"
  let ?s0 = "appendResultToFile ex_config 1 True ?w2 (new_pool (Some [?legacy]))"
  let ?calls = "[(1::nat, ?w2), (2::nat, ex_success_write)]"
  have k1: "call_key (1, ?w2) = Some (''002'', ''gpt'')"
    and k2: "call_key (2, ex_success_write) = Some (''001'', ''gpt'')"
    by (simp_all add: ex_success_write_def ex_call_key)
  have ne: "''gpt'' \<noteq> []" and q: "''002'' \<noteq> w_evalPath ex_success_write"
    by (simp_all add: ex_success_write_def)
  have keys: "list_all (\<lambda>c. call_key c \<noteq> None) ?calls" and dist: "distinct (map call_key ?calls)"
    using k1 k2 by simp_all
  have s0: "allResults ?s0
      = [?legacy,
         Fulfilled ''002'' ''success'' (Braintrust (transformModelResult 1 ''002'' ex_modelResult))]"
    by (simp add: allResults_append merged_def ex_success_write_def newResults_success)
       (simp add: allResults_def new_pool_def keep_existing_def)
  have name: "experimentName (transformModelResult k ''002'' ex_modelResult) = Some ''gpt''" for k
    by (simp add: experimentName_transformModelResult ex_modelResult_def)
  note inst = merge_frame_and_count
    [of ex_config 2 ex_success_write ?s0 "''002''" "''gpt''" ?calls]
  from ne q have prem1: "''gpt'' \<noteq> [] \<and>
      (''002'' \<noteq> w_evalPath ex_success_write
       \<or> ''gpt'' \<notin> set (newModelNames (call_news (2, ex_success_write))))"
    by blast
  from keys dist
  have prem2: "list_all (\<lambda>c. call_key c \<noteq> None) ?calls \<and> distinct (map call_key ?calls)"
    by (rule conjI)
  have "entries_of_key ''002'' ''gpt''
        (allResults (appendResultToFile ex_config 2 True ex_success_write ?s0))
      = entries_of_key ''002'' ''gpt'' (allResults ?s0)"
    by (rule inst [THEN conjunct2, THEN conjunct2, THEN conjunct2, THEN conjunct1, THEN mp,
          OF prem1])
  also have "entries_of_key ''002'' ''gpt'' (allResults ?s0)
      = [Fulfilled ''002'' ''success'' (Braintrust (transformModelResult 1 ''002'' ex_modelResult))]"
    unfolding s0 by (simp add: entries_of_key_def name)
  finally have a: "entries_of_key ''002'' ''gpt''
        (allResults (appendResultToFile ex_config 2 True ex_success_write ?s0))
      = [Fulfilled ''002'' ''success'' (Braintrust (transformModelResult 1 ''002'' ex_modelResult))]" .
  have "filter (\<lambda>r. entry_evalPath r \<noteq> w_evalPath ex_success_write)
        (allResults (appendResultToFile ex_config 2 True ex_success_write ?s0))
      = filter (\<lambda>r. entry_evalPath r \<noteq> w_evalPath ex_success_write) (allResults ?s0)"
    by (rule inst [THEN conjunct2, THEN conjunct1])
  also have "filter (\<lambda>r. entry_evalPath r \<noteq> w_evalPath ex_success_write) (allResults ?s0)
      = [?legacy,
         Fulfilled ''002'' ''success'' (Braintrust (transformModelResult 1 ''002'' ex_modelResult))]"
    unfolding s0 by (simp add: ex_success_write_def)
  finally have b: "filter (\<lambda>r. entry_evalPath r \<noteq> w_evalPath ex_success_write)
        (allResults (appendResultToFile ex_config 2 True ex_success_write ?s0))
      = [?legacy,
         Fulfilled ''002'' ''success'' (Braintrust (transformModelResult 1 ''002'' ex_modelResult))]" .
  have "length (allResults (append_all ex_config ?calls (new_pool None))) = length ?calls"
    by (rule inst [THEN conjunct2, THEN conjunct2, THEN conjunct2, THEN conjunct2, THEN mp,
          OF prem2, THEN conjunct2])
  then have c: "length (allResults (append_all ex_config ?calls (new_pool None))) = 2" by simp
  from ne q a b keys dist c show ?thesis by (intro conjI)
qed

section \<open>Properties of the scheduling loop\<close>

text \<open>What one pass of the loop body does to the fields of the pool.\<close>

lemma admit_next_fields:
  assumes "queue s = job # rest"
  shows "queue (admit_next cfg mc s) = rest"
    and "spawned (admit_next cfg mc s) = spawned s @ [(job, spawn_args cfg job)]"
    and "activeProcesses (admit_next cfg mc s) = activeProcesses s @ [(length (spawned s), job)]"
    and "evaluations_json (admit_next cfg mc s) = evaluations_json s"
    and "fileWriteQueue (admit_next cfg mc s) = fileWriteQueue s"
    and "completedEvals (admit_next cfg mc s) = completedEvals s"
    and "settled (admit_next cfg mc s) = settled s"
    and "killed (admit_next cfg mc s) = killed s"
    and "memoryCheckInterval (admit_next cfg mc s) = memoryCheckInterval s"
    and "progressTracker (admit_next cfg mc s) = progressTracker s"
  using assms by (simp_all add: admit_next_def startProcess_def console_log_def Let_def)

lemma wait_for_memory_fields:
  shows "queue (wait_for_memory mc s) = queue s"
    and "spawned (wait_for_memory mc s) = spawned s"
    and "activeProcesses (wait_for_memory mc s) = activeProcesses s"
    and "evaluations_json (wait_for_memory mc s) = evaluations_json s"
    and "fileWriteQueue (wait_for_memory mc s) = fileWriteQueue s"
    and "completedEvals (wait_for_memory mc s) = completedEvals s"
    and "settled (wait_for_memory mc s) = settled s"
    and "killed (wait_for_memory mc s) = killed s"
    and "progressTracker (wait_for_memory mc s) = progressTracker s"
  by (simp_all add: wait_for_memory_def console_log_def Let_def)

text \<open>The three ways through \<open>processQueue\<close>.\<close>

lemma processQueue_stop:
  assumes "\<not> (length (queue s) > 0 \<and> length (activeProcesses s) < maxProcesses cfg)"
  shows "processQueue e cfg s = s"
  by (subst processQueue.simps) (simp only: assms if_False)

lemma processQueue_wait:
  assumes "length (queue s) > 0 \<and> length (activeProcesses s) < maxProcesses cfg"
    and "\<not> hasEnough (checkAvailableMemory (freemem e (memReads s)) (totalmem e) 100)"
  shows "processQueue e cfg s
           = wait_for_memory (checkAvailableMemory (freemem e (memReads s)) (totalmem e) 100)
               (s\<lparr>memReads := memReads s + 1\<rparr>)"
  by (subst processQueue.simps) (simp only: assms if_True Let_def simp_thms)

lemma processQueue_admit:
  assumes "length (queue s) > 0 \<and> length (activeProcesses s) < maxProcesses cfg"
    and "hasEnough (checkAvailableMemory (freemem e (memReads s)) (totalmem e) 100)"
  shows "processQueue e cfg s
           = processQueue e cfg
               (admit_next cfg (checkAvailableMemory (freemem e (memReads s)) (totalmem e) 100)
                  (s\<lparr>memReads := memReads s + 1\<rparr>))"
  by (subst processQueue.simps) (simp only: assms if_True if_False Let_def simp_thms)

text \<open>
  \<open>processQueue\<close> admits a prefix of the queue, in the order of the queue: the jobs it
  takes are spawned one after the other and enter \<open>activeProcesses\<close> with the next child
  numbers, and the rest of the queue stays.
\<close>

definition admits :: "config \<Rightarrow> nat \<Rightarrow> pool \<Rightarrow> pool \<Rightarrow> bool" where
  "admits cfg k s s' =
     (k \<le> length (queue s)
      \<and> queue s' = drop k (queue s)
      \<and> spawned s' = spawned s @ map (\<lambda>p. (p, spawn_args cfg p)) (take k (queue s))
      \<and> activeProcesses s'
          = activeProcesses s
              @ zip [length (spawned s) ..< length (spawned s) + k] (take k (queue s)))"

lemma admits_zero:
  "queue s' = queue s \<Longrightarrow> spawned s' = spawned s \<Longrightarrow> activeProcesses s' = activeProcesses s
   \<Longrightarrow> admits cfg 0 s s'"
  by (simp add: admits_def)

lemma admits_step:
  assumes q: "queue s = job # rest"
    and s1: "queue s1 = rest" "spawned s1 = spawned s @ [(job, spawn_args cfg job)]"
      "activeProcesses s1 = activeProcesses s @ [(length (spawned s), job)]"
    and k: "admits cfg k s1 s'"
  shows "admits cfg (Suc k) s s'"
proof -
  have "[length (spawned s) ..< length (spawned s) + Suc k]
          = length (spawned s) # [Suc (length (spawned s)) ..< Suc (length (spawned s)) + k]"
    by (simp add: upt_conv_Cons)
  with q s1 k show ?thesis by (simp add: admits_def)
qed

lemma processQueue_admits: "\<exists>k. admits cfg k s (processQueue e cfg s)"
proof (induction e cfg s rule: processQueue.induct)
  case (1 e cfg s)
  let ?mc = "checkAvailableMemory (freemem e (memReads s)) (totalmem e) 100"
  let ?s1 = "s\<lparr>memReads := memReads s + 1\<rparr>"
  show ?case
  proof (cases "length (queue s) > 0 \<and> length (activeProcesses s) < maxProcesses cfg")
    case False
    then have "processQueue e cfg s = s" by (rule processQueue_stop)
    then show ?thesis using admits_zero [of s s cfg] by auto
  next
    case guard: True
    show ?thesis
    proof (cases "hasEnough ?mc")
      case False
      with guard have eq: "processQueue e cfg s = wait_for_memory ?mc ?s1"
        by (rule processQueue_wait)
      have "admits cfg 0 s (wait_for_memory ?mc ?s1)"
        by (rule admits_zero) (simp_all add: wait_for_memory_fields)
      with eq show ?thesis by auto
    next
      case True
      with guard have eq: "processQueue e cfg s = processQueue e cfg (admit_next cfg ?mc ?s1)"
        by (rule processQueue_admit)
      from guard obtain job rest where q: "queue s = job # rest"
        by (cases "queue s") auto
      then have q1: "queue ?s1 = job # rest" by simp
      from "1.IH" [OF guard refl refl] True
      obtain k where k: "admits cfg k (admit_next cfg ?mc ?s1)
                           (processQueue e cfg (admit_next cfg ?mc ?s1))"
        by auto
      have "admits cfg (Suc k) s (processQueue e cfg (admit_next cfg ?mc ?s1))"
        using q admit_next_fields(1-3) [OF q1, of cfg ?mc] k
        by (intro admits_step [where ?s1.0 = "admit_next cfg ?mc ?s1"]) simp_all
      with eq show ?thesis by auto
    qed
  qed
qed

text \<open>The fields \<open>processQueue\<close> does not touch.\<close>

lemma processQueue_frame:
  "evaluations_json (processQueue e cfg s) = evaluations_json s
   \<and> fileWriteQueue (processQueue e cfg s) = fileWriteQueue s
   \<and> completedEvals (processQueue e cfg s) = completedEvals s
   \<and> settled (processQueue e cfg s) = settled s
   \<and> killed (processQueue e cfg s) = killed s
   \<and> progressTracker (processQueue e cfg s) = progressTracker s"
proof (induction e cfg s rule: processQueue.induct)
  case (1 e cfg s)
  let ?mc = "checkAvailableMemory (freemem e (memReads s)) (totalmem e) 100"
  let ?s1 = "s\<lparr>memReads := memReads s + 1\<rparr>"
  show ?case
  proof (cases "length (queue s) > 0 \<and> length (activeProcesses s) < maxProcesses cfg")
    case False
    then show ?thesis by (simp add: processQueue_stop)
  next
    case guard: True
    show ?thesis
    proof (cases "hasEnough ?mc")
      case False
      with guard show ?thesis
        by (simp add: processQueue_wait wait_for_memory_fields)
    next
      case True
      from guard obtain job rest where "queue ?s1 = job # rest"
        by (cases "queue s") auto
      note f = admit_next_fields(4-8,10) [OF this, of cfg ?mc]
      from guard True have "processQueue e cfg s = processQueue e cfg (admit_next cfg ?mc ?s1)"
        by (rule processQueue_admit)
      with "1.IH" [OF guard refl refl] True f show ?thesis by simp
    qed
  qed
qed

text \<open>The worker budget: the loop never takes \<open>activeProcesses\<close> above \<open>maxProcesses\<close>.\<close>

lemma processQueue_budget:
  "length (activeProcesses s) \<le> maxProcesses cfg
   \<Longrightarrow> length (activeProcesses (processQueue e cfg s)) \<le> maxProcesses cfg"
proof (induction e cfg s rule: processQueue.induct)
  case (1 e cfg s)
  let ?mc = "checkAvailableMemory (freemem e (memReads s)) (totalmem e) 100"
  let ?s1 = "s\<lparr>memReads := memReads s + 1\<rparr>"
  show ?case
  proof (cases "length (queue s) > 0 \<and> length (activeProcesses s) < maxProcesses cfg")
    case False
    with "1.prems" show ?thesis by (simp add: processQueue_stop)
  next
    case guard: True
    show ?thesis
    proof (cases "hasEnough ?mc")
      case False
      with guard "1.prems" show ?thesis
        by (simp add: processQueue_wait wait_for_memory_fields)
    next
      case True
      from guard obtain job rest where "queue ?s1 = job # rest"
        by (cases "queue s") auto
      from admit_next_fields(3) [OF this, of cfg ?mc] guard
      have "length (activeProcesses (admit_next cfg ?mc ?s1)) \<le> maxProcesses cfg" by simp
      with "1.IH" [OF guard refl refl] True
      have "length (activeProcesses (processQueue e cfg (admit_next cfg ?mc ?s1)))
              \<le> maxProcesses cfg"
        by simp
      moreover from guard True
      have "processQueue e cfg s = processQueue e cfg (admit_next cfg ?mc ?s1)"
        by (rule processQueue_admit)
      ultimately show ?thesis by simp
    qed
  qed
qed

section \<open>Admission follows the order of submission\<close>

text \<open>
  \<open>fifo cfg submitted s s'\<close>: from \<open>s\<close> to \<open>s'\<close> the jobs \<open>submitted\<close> joined the queue in
  that order, and the jobs spawned meanwhile are a prefix of the old queue followed by
  the submitted jobs, each spawned with the arguments of \<open>spawn_args\<close>; the others still
  wait, in order.
\<close>

definition fifo :: "config \<Rightarrow> string list \<Rightarrow> pool \<Rightarrow> pool \<Rightarrow> bool" where
  "fifo cfg submitted s s' =
     (\<exists>k. k \<le> length (queue s @ submitted)
        \<and> queue s' = drop k (queue s @ submitted)
        \<and> spawned s' = spawned s @ map (\<lambda>p. (p, spawn_args cfg p)) (take k (queue s @ submitted)))"

lemma fifo_same:
  "queue s' = queue s \<Longrightarrow> spawned s' = spawned s \<Longrightarrow> fifo cfg [] s s'"
  unfolding fifo_def by (intro exI [of _ 0]) simp

lemma fifo_admits: "admits cfg k s s' \<Longrightarrow> fifo cfg [] s s'"
  unfolding fifo_def admits_def by (intro exI [of _ k]) simp

lemma fifo_processQueue: "fifo cfg [] s (processQueue e cfg s)"
  using processQueue_admits [of cfg s e] by (auto intro: fifo_admits)

lemma fifo_trans:
  assumes "fifo cfg ps s s1" and "fifo cfg qs s1 s2"
  shows "fifo cfg (ps @ qs) s s2"
proof -
  let ?mk = "\<lambda>p. (p, spawn_args cfg p)"
  from assms(1) obtain k where k: "k \<le> length (queue s @ ps)"
    and q1: "queue s1 = drop k (queue s @ ps)"
    and sp1: "spawned s1 = spawned s @ map ?mk (take k (queue s @ ps))"
    unfolding fifo_def by blast
  from assms(2) obtain j where j: "j \<le> length (queue s1 @ qs)"
    and q2: "queue s2 = drop j (queue s1 @ qs)"
    and sp2: "spawned s2 = spawned s1 @ map ?mk (take j (queue s1 @ qs))"
    unfolding fifo_def by blast
  define X where "X = take k (queue s @ ps)"
  define Y where "Y = queue s1 @ qs"
  have lenX: "length X = k" using k by (simp add: X_def)
  have whole: "queue s @ ps @ qs = X @ Y"
    unfolding X_def Y_def by (metis q1 append_take_drop_id append_assoc)
  have "drop (length X + j) (X @ Y) = drop j Y" and "take (length X + j) (X @ Y) = X @ take j Y"
    by simp_all
  then have d: "drop (k + j) (queue s @ ps @ qs) = drop j Y"
    and t: "take (k + j) (queue s @ ps @ qs) = X @ take j Y"
    by (simp_all only: lenX whole)
  have "length Y = length (queue s @ ps @ qs) - k"
    by (simp only: whole length_append lenX add_diff_cancel_left')
  with j k have le: "k + j \<le> length (queue s @ ps @ qs)"
    by (simp add: Y_def)
  have "queue s2 = drop (k + j) (queue s @ (ps @ qs))"
    using q2 d by (simp add: Y_def)
  moreover have "spawned s2 = spawned s @ map ?mk (take (k + j) (queue s @ (ps @ qs)))"
    using sp1 sp2 t by (simp add: X_def Y_def)
  ultimately show ?thesis
    unfolding fifo_def using le by (intro exI [of _ "k + j"]) simp
qed

lemma fifo_runEval: "fifo cfg [p] s (runEval e cfg p s)"
proof -
  have "fifo cfg [p] s (s\<lparr>queue := queue s @ [p]\<rparr>)"
    unfolding fifo_def by (intro exI [of _ 0]) simp
  from fifo_trans [OF this fifo_processQueue [of cfg _ e]]
  show ?thesis by (simp add: runEval_def)
qed

lemma fifo_foldl_runEval: "fifo cfg ps s (foldl (\<lambda>s' p. runEval e cfg p s') s ps)"
proof (induction ps rule: rev_induct)
  case Nil
  show ?case by (simp add: fifo_same)
next
  case (snoc p ps)
  from fifo_trans [OF snoc fifo_runEval [of cfg p _ e]] show ?case by simp
qed

section \<open>The handlers of a child, field by field\<close>

lemma update_tracker_fields:
  "activeProcesses (update_tracker cfg st p s) = activeProcesses s"
  "queue (update_tracker cfg st p s) = queue s"
  "spawned (update_tracker cfg st p s) = spawned s"
  "fileWriteQueue (update_tracker cfg st p s) = fileWriteQueue s"
  "evaluations_json (update_tracker cfg st p s) = evaluations_json s"
  "settled (update_tracker cfg st p s) = settled s"
  "killed (update_tracker cfg st p s) = killed s"
  "memoryCheckInterval (update_tracker cfg st p s) = memoryCheckInterval s"
  by (simp_all add: update_tracker_def split: option.splits)

text \<open>The write that the \<open>exit\<close> handler of a job queues.\<close>

definition exit_write :: "env \<Rightarrow> string \<Rightarrow> int option \<Rightarrow> string option \<Rightarrow> string \<Rightarrow> write_request" where
  "exit_write e evalPath code signal stdout =
     (if code = Some 0 then
        \<lparr>w_evalPath = evalPath, w_status = ''success'',
         w_result = Some (fst (parse_stdout e evalPath stdout)), w_error = None\<rparr>
      else
        \<lparr>w_evalPath = evalPath, w_status = ''error'', w_result = None,
         w_error = Some (exit_message code signal)\<rparr>)"

lemma on_exit_fields:
  assumes "child < length (spawned s)"
  shows "activeProcesses (on_exit e cfg child code signal stdout s)
           = filter (\<lambda>(c, _). c \<noteq> child) (activeProcesses s)"
    and "fileWriteQueue (on_exit e cfg child code signal stdout s)
           = fileWriteQueue s @ [exit_write e (fst (spawned s ! child)) code signal stdout]"
    and "queue (on_exit e cfg child code signal stdout s) = queue s"
    and "spawned (on_exit e cfg child code signal stdout s) = spawned s"
    and "evaluations_json (on_exit e cfg child code signal stdout s) = evaluations_json s"
    and "settled (on_exit e cfg child code signal stdout s) = settled s"
    and "killed (on_exit e cfg child code signal stdout s) = killed s"
    and "memoryCheckInterval (on_exit e cfg child code signal stdout s) = memoryCheckInterval s"
  using assms
  by (simp_all add: on_exit_def exit_write_def Let_def update_tracker_fields)

lemma on_exit_unknown:
  "\<not> child < length (spawned s) \<Longrightarrow> on_exit e cfg child code signal stdout s = s"
  by (simp add: on_exit_def)

lemma on_error_fields:
  assumes "child < length (spawned s)"
  shows "activeProcesses (on_error cfg child message s)
           = filter (\<lambda>(c, _). c \<noteq> child) (activeProcesses s)"
    and "fileWriteQueue (on_error cfg child message s)
           = fileWriteQueue s
               @ [\<lparr>w_evalPath = fst (spawned s ! child), w_status = ''error'', w_result = None,
                    w_error = Some message\<rparr>]"
    and "queue (on_error cfg child message s) = queue s"
    and "spawned (on_error cfg child message s) = spawned s"
    and "evaluations_json (on_error cfg child message s) = evaluations_json s"
    and "settled (on_error cfg child message s) = settled s"
  using assms by (simp_all add: on_error_def Let_def update_tracker_fields)

lemma appendResultToFile_fields:
  "queue (appendResultToFile cfg now fsOk w s) = queue s"
  "spawned (appendResultToFile cfg now fsOk w s) = spawned s"
  "activeProcesses (appendResultToFile cfg now fsOk w s) = activeProcesses s"
  "fileWriteQueue (appendResultToFile cfg now fsOk w s) = fileWriteQueue s"
  "settled (appendResultToFile cfg now fsOk w s) = settled s"
  "killed (appendResultToFile cfg now fsOk w s) = killed s"
  "memoryCheckInterval (appendResultToFile cfg now fsOk w s) = memoryCheckInterval s"
  by (simp_all add: appendResultToFile_def console_log_def Let_def)

lemma admits_cong:
  assumes "queue t = queue s" and "spawned t = spawned s"
    and "activeProcesses t = activeProcesses s" and "admits cfg k t s'"
  shows "admits cfg k s s'"
  using assms by (simp add: admits_def)

text \<open>The state in which the handler calls \<open>processQueue\<close> after its write.\<close>

definition after_write :: "config \<Rightarrow> nat \<Rightarrow> bool \<Rightarrow> write_request \<Rightarrow> write_request list \<Rightarrow> pool \<Rightarrow> pool" where
  "after_write cfg now fsOk w ws s =
     (appendResultToFile cfg now fsOk w (s\<lparr>fileWriteQueue := ws\<rparr>))
       \<lparr>settled := settled s @ [w]\<rparr>"

lemma on_write_done_eq:
  assumes "fileWriteQueue s = w # ws"
  shows "on_write_done e cfg now fsOk s = processQueue e cfg (after_write cfg now fsOk w ws s)"
  using assms
  by (simp add: on_write_done_def after_write_def Let_def appendResultToFile_fields)

lemma after_write_fields:
  "queue (after_write cfg now fsOk w ws s) = queue s"
  "spawned (after_write cfg now fsOk w ws s) = spawned s"
  "activeProcesses (after_write cfg now fsOk w ws s) = activeProcesses s"
  "fileWriteQueue (after_write cfg now fsOk w ws s) = ws"
  "settled (after_write cfg now fsOk w ws s) = settled s @ [w]"
  "killed (after_write cfg now fsOk w ws s) = killed s"
  "allResults (after_write cfg now True w ws s) = merged now w (allResults s)"
  "evaluations_json (after_write cfg now False w ws s) = evaluations_json s"
  by (simp_all add: after_write_def appendResultToFile_fields)
     (simp_all add: appendResultToFile_def allResults_def console_log_def Let_def)

lemma allResults_processQueue: "allResults (processQueue e cfg s) = allResults s"
  using processQueue_frame [of e cfg s] by (simp add: allResults_def)

lemma on_write_done_fields:
  assumes "fileWriteQueue s = w # ws"
  shows "allResults (on_write_done e cfg now True s) = merged now w (allResults s)"
    and "evaluations_json (on_write_done e cfg now False s) = evaluations_json s"
    and "settled (on_write_done e cfg now fsOk s) = settled s @ [w]"
    and "fileWriteQueue (on_write_done e cfg now fsOk s) = ws"
    and "killed (on_write_done e cfg now fsOk s) = killed s"
    and "\<exists>k. admits cfg k s (on_write_done e cfg now fsOk s)"
proof -
  note eq = on_write_done_eq [OF assms]
  note fr = processQueue_frame [of e cfg "after_write cfg now fsOk w ws s"]
  show "allResults (on_write_done e cfg now True s) = merged now w (allResults s)"
    by (simp add: eq allResults_processQueue after_write_fields)
  show "evaluations_json (on_write_done e cfg now False s) = evaluations_json s"
    using processQueue_frame [of e cfg "after_write cfg now False w ws s"]
    by (simp add: eq after_write_fields)
  show "settled (on_write_done e cfg now fsOk s) = settled s @ [w]"
    using fr by (simp add: eq after_write_fields)
  show "fileWriteQueue (on_write_done e cfg now fsOk s) = ws"
    using fr by (simp add: eq after_write_fields)
  show "killed (on_write_done e cfg now fsOk s) = killed s"
    using fr by (simp add: eq after_write_fields)
  from processQueue_admits [of cfg "after_write cfg now fsOk w ws s" e]
  obtain k where "admits cfg k (after_write cfg now fsOk w ws s) (on_write_done e cfg now fsOk s)"
    by (auto simp: eq)
  then have "admits cfg k s (on_write_done e cfg now fsOk s)"
    by (rule admits_cong [rotated 3]) (simp_all add: after_write_fields)
  then show "\<exists>k. admits cfg k s (on_write_done e cfg now fsOk s)" ..
qed

text \<open>With a job waiting, a free slot and enough memory, the head of the queue is admitted.\<close>

lemma processQueue_admits_head:
  assumes "length (queue s) > 0 \<and> length (activeProcesses s) < maxProcesses cfg"
    and "hasEnough (checkAvailableMemory (freemem e (memReads s)) (totalmem e) 100)"
  shows "\<exists>k. admits cfg (Suc k) s (processQueue e cfg s)"
proof -
  let ?mc = "checkAvailableMemory (freemem e (memReads s)) (totalmem e) 100"
  let ?s1 = "s\<lparr>memReads := memReads s + 1\<rparr>"
  from assms(1) obtain job rest where q: "queue s = job # rest" by (cases "queue s") auto
  then have q1: "queue ?s1 = job # rest" by simp
  from processQueue_admits [of cfg "admit_next cfg ?mc ?s1" e]
  obtain k where k: "admits cfg k (admit_next cfg ?mc ?s1)
                       (processQueue e cfg (admit_next cfg ?mc ?s1))"
    by blast
  have "admits cfg (Suc k) s (processQueue e cfg (admit_next cfg ?mc ?s1))"
    using q admit_next_fields(1-3) [OF q1, of cfg ?mc] k
    by (intro admits_step [where ?s1.0 = "admit_next cfg ?mc ?s1"]) simp_all
  with processQueue_admit [OF assms] show ?thesis by auto
qed

lemma admits_Suc_head:
  assumes "admits cfg (Suc k) s s'"
  obtains job rest where "queue s = job # rest"
    and "take (Suc (length (spawned s))) (spawned s') = spawned s @ [(job, spawn_args cfg job)]"
    and "take (Suc (length (activeProcesses s))) (activeProcesses s')
           = activeProcesses s @ [(length (spawned s), job)]"
proof -
  from assms have "Suc k \<le> length (queue s)" by (simp add: admits_def)
  then obtain job rest where q: "queue s = job # rest" by (cases "queue s") auto
  have "[length (spawned s) ..< length (spawned s) + Suc k]
          = length (spawned s) # [Suc (length (spawned s)) ..< Suc (length (spawned s)) + k]"
    by (simp add: upt_conv_Cons)
  with assms q show ?thesis by (intro that [of job rest]) (simp_all add: admits_def)
qed

section \<open>Classification of a worker's exit\<close>

text \<open>
  The parent reads the output as \<open>stdout.trim().split("\n")\<close>: the white space at both
  ends of the whole output goes first, then the lines are taken. The output of a worker
  is malformed when no line of the trimmed output starts with the sentinel, or when the
  payload of the first such line does not parse.
\<close>

definition malformed :: "env \<Rightarrow> string \<Rightarrow> bool" where
  "malformed e stdout =
     (case find (\<lambda>line. startsWith line ''EVAL_RESULT:'') (split_lines (trim stdout)) of
        None \<Rightarrow> True
      | Some resultLine \<Rightarrow> JSON_parse e (replace_first ''EVAL_RESULT:'' [] resultLine) = None)"

text \<open>The writes of a soft failure and of an abnormal exit.\<close>

definition default_write :: "string \<Rightarrow> write_request" where
  "default_write p =
     \<lparr>w_evalPath = p, w_status = ''success'', w_result = Some (Object None), w_error = None\<rparr>"


lemma parse_stdout_malformed:
  assumes "malformed e stdout"
  shows "fst (parse_stdout e evalPath stdout) = Object None"
proof (cases "trim stdout = []")
  case True
  then show ?thesis by (simp add: parse_stdout_def)
next
  case False
  with assms show ?thesis
    by (auto simp: parse_stdout_def malformed_def Let_def split: option.splits)
qed

lemma newResults_default:
  "newResults now p ''success'' (Some (Object None)) err
     = [Fulfilled p ''success'' (Braintrust (createDefaultBraintrustResult now p ''Unknown Model''))]"
  by (simp add: newResults_def transformedResult_def transformToBraintrustFormat_def)

lemma last_merged:
  "newResults now (w_evalPath w) (w_status w) (w_result w) (w_error w) = [r]
   \<Longrightarrow> last (merged now w rs) = r"
  by (simp add: merged_def Let_def)

lemma default_scores:
  "\<exists>sc. scores (createDefaultBraintrustResult now p modelName) = Some sc
     \<and> score (eval_score sc) = 0 \<and> score (build_score sc) = 0
     \<and> score (lint_score sc) = 0 \<and> score (test_score sc) = 0"
  by (simp add: createDefaultBraintrustResult_def mk_score_def Let_def)

text \<open>
  The lines of the captured output as it is, before \<open>trim\<close>: whether one of them starts
  with the sentinel.
\<close>

definition sentinel_line :: "string \<Rightarrow> bool" where
  "sentinel_line stdout = list_ex (\<lambda>line. startsWith line ''EVAL_RESULT:'') (split_lines stdout)"

text \<open>An output whose only line has two spaces before the sentinel.\<close>

definition ex_indented :: string where
  "ex_indented = ''  EVAL_RESULT:{modelResults}''"

text \<open>
  Claim C4, as stated, fails on the lines of the captured output. No line of
  \<open>ex_indented\<close> starts with the sentinel; the parent trims the output before it splits
  it, finds the sentinel at the start of the first line and stores the parsed result,
  whose build score is 1.
\<close>

theorem indented_sentinel_is_parsed:
  "\<not> sentinel_line ex_indented
   \<and> allResults (run ex_env ex_config ex_running
          [Exit 0 (Some 0) None ex_indented, WriteDone 7 True])
       = [Fulfilled ''A'' ''success'' (Braintrust (transformModelResult 7 ''A'' ex_modelResult))]
   \<and> map_option (\<lambda>sc. score (build_score sc))
         (scores (transformModelResult 7 ''A'' ex_modelResult)) = Some 1"
  by code_simp

text \<open>
  Claim C4, amended. A worker exits with code 0 and its output is malformed: no line of
  the trimmed output starts with the sentinel, or the payload of the first such line
  does not parse. Then the \<open>exit\<close> handler queues the write of the initial result
  \<open>{ success: true }\<close>; and in whatever state that write reaches the head of the write
  queue, it appends to the ledger an entry whose four scores are 0, the default failed
  result, and the promise of the job is resolved. Every function involved is total: the
  handler ends in a pool state.
\<close>

theorem malformed_result_recorded_as_failed:
  assumes "child < length (spawned s)" and "malformed e stdout"
  shows "fileWriteQueue (on_exit e cfg child (Some 0) signal stdout s)
           = fileWriteQueue s @ [default_write (fst (spawned s ! child))]
         \<and> (fileWriteQueue s2 = default_write p # ws
            \<longrightarrow> (\<exists>b sc. last (allResults (on_write_done e cfg now True s2))
                          = Fulfilled p ''success'' (Braintrust b)
                        \<and> scores b = Some sc
                        \<and> score (eval_score sc) = 0 \<and> score (build_score sc) = 0
                        \<and> score (lint_score sc) = 0 \<and> score (test_score sc) = 0)
                \<and> settled (on_write_done e cfg now True s2) = settled s2 @ [default_write p]
                \<and> fileWriteQueue (on_write_done e cfg now True s2) = ws)"
proof (intro conjI impI)
  show "fileWriteQueue (on_exit e cfg child (Some 0) signal stdout s)
           = fileWriteQueue s @ [default_write (fst (spawned s ! child))]"
    using assms
    by (simp add: on_exit_fields exit_write_def default_write_def parse_stdout_malformed)
next
  assume q: "fileWriteQueue s2 = default_write p # ws"
  have "last (allResults (on_write_done e cfg now True s2))
          = Fulfilled p ''success'' (Braintrust (createDefaultBraintrustResult now p ''Unknown Model''))"
    by (simp add: on_write_done_fields(1) [OF q])
       (simp add: last_merged default_write_def newResults_default)
  with default_scores [of now p "''Unknown Model''"]
  show "\<exists>b sc. last (allResults (on_write_done e cfg now True s2))
                   = Fulfilled p ''success'' (Braintrust b)
                 \<and> scores b = Some sc
                 \<and> score (eval_score sc) = 0 \<and> score (build_score sc) = 0
                 \<and> score (lint_score sc) = 0 \<and> score (test_score sc) = 0"
    by auto
  show "settled (on_write_done e cfg now True s2) = settled s2 @ [default_write p]"
    by (rule on_write_done_fields(3) [OF q])
  show "fileWriteQueue (on_write_done e cfg now True s2) = ws"
    by (rule on_write_done_fields(4) [OF q])
qed

theorem malformed_result_recorded_as_failed_witness:
  "0 < length (spawned ex_running)
   \<and> malformed ex_env ex_stdout
   \<and> fileWriteQueue (on_exit ex_env ex_config 0 (Some 0) None ex_stdout ex_running)
       = default_write ''A'' # []
   \<and> (\<exists>b sc. last (allResults (on_write_done ex_env ex_config 7 True
                    (on_exit ex_env ex_config 0 (Some 0) None ex_stdout ex_running)))
                = Fulfilled ''A'' ''success'' (Braintrust b)
              \<and> scores b = Some sc
              \<and> score (eval_score sc) = 0 \<and> score (build_score sc) = 0
              \<and> score (lint_score sc) = 0 \<and> score (test_score sc) = 0)"
proof -
  let ?s2 = "on_exit ex_env ex_config 0 (Some 0) None ex_stdout ex_running"
  have c: "0 < length (spawned ex_running)" by code_simp
  have m: "malformed ex_env ex_stdout" by code_simp
  have q: "fileWriteQueue ?s2 = default_write ''A'' # []" by code_simp
  note inst = malformed_result_recorded_as_failed
    [OF c m, of ex_config None ?s2 "''A''" "[]" 7]
  from inst [THEN conjunct2, THEN mp, OF q, THEN conjunct1] c m q
  show ?thesis by blast
qed



section \<open>The memory gate\<close>

text \<open>The check of \<open>processQueue\<close> succeeds from 100 MB of free memory on, counted in bytes.\<close>

lemma hasEnough_iff:
  "hasEnough (checkAvailableMemory freeBytes totalBytes 100) \<longleftrightarrow> 104857600 \<le> freeBytes"
proof -
  have "(100 :: rat) \<le> of_nat freeBytes / 1024 / 1024 \<longleftrightarrow> (104857600 :: rat) \<le> of_nat freeBytes"
    by (simp add: le_divide_eq)
  also have "\<dots> \<longleftrightarrow> (of_nat 104857600 :: rat) \<le> of_nat freeBytes" by simp
  also have "\<dots> \<longleftrightarrow> 104857600 \<le> freeBytes" by (simp only: of_nat_le_iff)
  finally show ?thesis by (simp add: checkAvailableMemory_def Let_def)
qed

text \<open>The state in which the timer's callback calls \<open>processQueue\<close> again.\<close>

definition resumed :: "env \<Rightarrow> pool \<Rightarrow> pool" where
  "resumed e s =
     (let recheckMemory = checkAvailableMemory (freemem e (memReads s)) (totalmem e) 100
      in (console_log (MemoryAvailableAgain (available recheckMemory) (percentage recheckMemory))
            (s\<lparr>memReads := memReads s + 1\<rparr>))\<lparr>memoryCheckInterval := None\<rparr>)"

lemma resumed_fields:
  "queue (resumed e s) = queue s"
  "spawned (resumed e s) = spawned s"
  "activeProcesses (resumed e s) = activeProcesses s"
  "memReads (resumed e s) = memReads s + 1"
  "memoryCheckInterval (resumed e s) = None"
  by (simp_all add: resumed_def console_log_def Let_def)

text \<open>
  Claim C8. With a job waiting and a free slot, when the reading of the free memory is
  below 100 MB, \<open>processQueue\<close> spawns nothing: it takes that one reading, prints the
  wait notice, arms the timer with a period of 2000 ms unless one is armed, and returns.
  When the timer fires and the reading is still below 100 MB nothing is spawned and the
  timer stays; when the reading is sufficient the timer is cleared and \<open>processQueue\<close> is
  called again, and if its own reading is sufficient too the head of the queue is
  spawned.
\<close>

theorem memory_gate:
  assumes "length (queue s) > 0 \<and> length (activeProcesses s) < maxProcesses cfg"
    and "freemem e (memReads s) < 104857600"
  shows "spawned (processQueue e cfg s) = spawned s
         \<and> activeProcesses (processQueue e cfg s) = activeProcesses s
         \<and> queue (processQueue e cfg s) = queue s
         \<and> memReads (processQueue e cfg s) = memReads s + 1
         \<and> (\<exists>a p. console (processQueue e cfg s) = console s @ [WaitingForMemory a p])
         \<and> memoryCheckInterval (processQueue e cfg s)
             = (case memoryCheckInterval s of None \<Rightarrow> Some 2000 | Some period \<Rightarrow> Some period)
         \<and> (memoryCheckInterval t \<noteq> None \<and> freemem e (memReads t) < 104857600
            \<longrightarrow> spawned (on_memory_interval e cfg t) = spawned t
                \<and> activeProcesses (on_memory_interval e cfg t) = activeProcesses t
                \<and> memoryCheckInterval (on_memory_interval e cfg t) = memoryCheckInterval t)
         \<and> (memoryCheckInterval t \<noteq> None \<and> 104857600 \<le> freemem e (memReads t)
            \<longrightarrow> on_memory_interval e cfg t = processQueue e cfg (resumed e t)
                \<and> (length (queue t) > 0 \<and> length (activeProcesses t) < maxProcesses cfg
                     \<and> 104857600 \<le> freemem e (memReads t + 1)
                    \<longrightarrow> take (Suc (length (spawned t))) (spawned (on_memory_interval e cfg t))
                        = spawned t @ [(hd (queue t), spawn_args cfg (hd (queue t)))]))"
proof -
  let ?mc = "checkAvailableMemory (freemem e (memReads s)) (totalmem e) 100"
  from assms(2) have low: "\<not> hasEnough ?mc" by (simp add: hasEnough_iff)
  note eq = processQueue_wait [OF assms(1) low]
  have blocked: "spawned (processQueue e cfg s) = spawned s
         \<and> activeProcesses (processQueue e cfg s) = activeProcesses s
         \<and> queue (processQueue e cfg s) = queue s
         \<and> memReads (processQueue e cfg s) = memReads s + 1
         \<and> (\<exists>a p. console (processQueue e cfg s) = console s @ [WaitingForMemory a p])
         \<and> memoryCheckInterval (processQueue e cfg s)
             = (case memoryCheckInterval s of None \<Rightarrow> Some 2000 | Some period \<Rightarrow> Some period)"
    using assms(1)
    by (simp add: eq wait_for_memory_def console_log_def Let_def split: option.splits)
  have still: "spawned (on_memory_interval e cfg t) = spawned t
                \<and> activeProcesses (on_memory_interval e cfg t) = activeProcesses t
                \<and> memoryCheckInterval (on_memory_interval e cfg t) = memoryCheckInterval t"
    if "memoryCheckInterval t \<noteq> None \<and> freemem e (memReads t) < 104857600"
    using that by (auto simp: on_memory_interval_def hasEnough_iff Let_def)
  have again: "on_memory_interval e cfg t = processQueue e cfg (resumed e t)"
    if "memoryCheckInterval t \<noteq> None \<and> 104857600 \<le> freemem e (memReads t)"
    using that by (auto simp: on_memory_interval_def hasEnough_iff resumed_def Let_def)
  have head: "take (Suc (length (spawned t))) (spawned (on_memory_interval e cfg t))
                = spawned t @ [(hd (queue t), spawn_args cfg (hd (queue t)))]"
    if a: "memoryCheckInterval t \<noteq> None \<and> 104857600 \<le> freemem e (memReads t)"
      and g: "length (queue t) > 0 \<and> length (activeProcesses t) < maxProcesses cfg
                \<and> 104857600 \<le> freemem e (memReads t + 1)"
  proof -
    from g have "length (queue (resumed e t)) > 0
                   \<and> length (activeProcesses (resumed e t)) < maxProcesses cfg"
      and "hasEnough (checkAvailableMemory (freemem e (memReads (resumed e t))) (totalmem e) 100)"
      by (simp_all add: resumed_fields hasEnough_iff)
    then obtain k where "admits cfg (Suc k) (resumed e t) (processQueue e cfg (resumed e t))"
      using processQueue_admits_head by blast
    then obtain job rest where "queue (resumed e t) = job # rest"
      and "take (Suc (length (spawned (resumed e t)))) (spawned (processQueue e cfg (resumed e t)))
             = spawned (resumed e t) @ [(job, spawn_args cfg job)]"
      by (rule admits_Suc_head)
    then show ?thesis by (simp add: again [OF a] resumed_fields)
  qed
  from blocked still again head show ?thesis by blast
qed
theorem memory_gate_witness:
  "(length (queue ex_waiting) > 0 \<and> length (activeProcesses ex_waiting) < maxProcesses ex_config)
   \<and> freemem ex_env_low (memReads ex_waiting) < 104857600
   \<and> spawned (processQueue ex_env_low ex_config ex_waiting) = []
   \<and> queue (processQueue ex_env_low ex_config ex_waiting) = [''A'']
   \<and> memoryCheckInterval (processQueue ex_env_low ex_config ex_waiting) = Some 2000
   \<and> spawned (on_memory_interval ex_env_low ex_config
                (processQueue ex_env_low ex_config ex_waiting))
       = [(''A'', spawn_args ex_config ''A'')]"
proof -
  let ?t = "processQueue ex_env_low ex_config ex_waiting"
  have g: "length (queue ex_waiting) > 0 \<and> length (activeProcesses ex_waiting) < maxProcesses ex_config"
    by code_simp
  have low: "freemem ex_env_low (memReads ex_waiting) < 104857600" by code_simp
  note inst = memory_gate [OF g low, of ?t]
  have s0: "spawned ex_waiting = []" and q0: "queue ex_waiting = [''A'']"
    and i0: "memoryCheckInterval ex_waiting = None"
    by code_simp+
  from inst s0 q0 i0 have blocked: "spawned ?t = []" "queue ?t = [''A'']"
    "memoryCheckInterval ?t = Some 2000" "activeProcesses ?t = activeProcesses ex_waiting"
    "memReads ?t = memReads ex_waiting + 1"
    by simp_all
  have a: "memoryCheckInterval ?t \<noteq> None \<and> 104857600 \<le> freemem ex_env_low (memReads ?t)"
    unfolding blocked by code_simp
  have h: "length (queue ?t) > 0 \<and> length (activeProcesses ?t) < maxProcesses ex_config
             \<and> 104857600 \<le> freemem ex_env_low (memReads ?t + 1)"
    unfolding blocked by code_simp
  from inst [THEN conjunct2, THEN conjunct2, THEN conjunct2, THEN conjunct2, THEN conjunct2,
             THEN conjunct2, THEN conjunct2, THEN mp, OF a, THEN conjunct2, THEN mp, OF h]
  have t: "take (Suc 0) (spawned (on_memory_interval ex_env_low ex_config ?t))
          = [(''A'', spawn_args ex_config ''A'')]"
    by (simp add: blocked)
  have "length (spawned (on_memory_interval ex_env_low ex_config ?t)) = Suc 0" by code_simp
  with t have "spawned (on_memory_interval ex_env_low ex_config ?t)
                 = [(''A'', spawn_args ex_config ''A'')]"
    by simp
  with g low blocked show ?thesis by simp
qed

section \<open>The worker budget and the order of admission along a run\<close>

text \<open>The jobs an event submits.\<close>

fun submitted_by :: "event \<Rightarrow> string list" where
  "submitted_by (Submit evalPath) = [evalPath]"
| "submitted_by _ = []"

definition submissions :: "event list \<Rightarrow> string list" where
  "submissions evs = concat (map submitted_by evs)"

lemma step_budget:
  assumes "length (activeProcesses s) \<le> maxProcesses cfg"
  shows "length (activeProcesses (step e cfg s ev)) \<le> maxProcesses cfg"
proof (cases ev)
  case (Submit p)
  from assms have "length (activeProcesses (s\<lparr>queue := queue s @ [p]\<rparr>)) \<le> maxProcesses cfg"
    by simp
  then show ?thesis unfolding Submit by (simp add: runEval_def processQueue_budget)
next
  case (Exit child code signal stdout)
  show ?thesis
  proof (cases "child < length (spawned s)")
    case True
    from order_trans [OF length_filter_le assms]
    show ?thesis unfolding Exit by (simp add: on_exit_fields(1) [OF True])
  next
    case False
    with assms show ?thesis unfolding Exit by (simp add: on_exit_unknown)
  qed
next
  case (Error child message)
  show ?thesis
  proof (cases "child < length (spawned s)")
    case True
    from order_trans [OF length_filter_le assms]
    show ?thesis unfolding Error by (simp add: on_error_fields(1) [OF True])
  next
    case False
    with assms show ?thesis unfolding Error by (simp add: on_error_def)
  qed
next
  case (WriteDone now fsOk)
  show ?thesis
  proof (cases "fileWriteQueue s")
    case Nil
    with assms show ?thesis unfolding WriteDone by (simp add: on_write_done_def)
  next
    case (Cons w ws)
    from assms have "length (activeProcesses (after_write cfg now fsOk w ws s)) \<le> maxProcesses cfg"
      by (simp add: after_write_fields)
    then show ?thesis
      unfolding WriteDone by (simp add: on_write_done_eq [OF Cons] processQueue_budget)
  qed
next
  case MemoryTick
  have "length (activeProcesses (resumed e s)) \<le> maxProcesses cfg"
    using assms by (simp add: resumed_fields)
  then have "length (activeProcesses (processQueue e cfg (resumed e s))) \<le> maxProcesses cfg"
    by (rule processQueue_budget)
  with assms show ?thesis
    unfolding MemoryTick by (auto simp: on_memory_interval_def resumed_def Let_def)
qed

lemma run_snoc: "run e cfg s (evs @ [ev]) = step e cfg (run e cfg s evs) ev"
  by (simp add: run_def)

lemma run_budget:
  assumes "length (activeProcesses s) \<le> maxProcesses cfg"
  shows "length (activeProcesses (run e cfg s evs)) \<le> maxProcesses cfg"
proof (induction evs rule: rev_induct)
  case Nil
  from assms show ?case by (simp add: run_def)
next
  case (snoc ev evs)
  then show ?case by (simp add: run_snoc step_budget)
qed

lemma step_fifo: "fifo cfg (submitted_by ev) s (step e cfg s ev)"
proof (cases ev)
  case (Submit p)
  show ?thesis unfolding Submit by (simp add: fifo_runEval)
next
  case (Exit child code signal stdout)
  show ?thesis
    unfolding Exit
    by (cases "child < length (spawned s)")
       (simp_all add: fifo_same on_exit_fields on_exit_unknown)
next
  case (Error child message)
  show ?thesis
    unfolding Error
    by (cases "child < length (spawned s)")
       (simp_all add: fifo_same on_error_fields, simp add: on_error_def fifo_same)
next
  case (WriteDone now fsOk)
  show ?thesis
  proof (cases "fileWriteQueue s")
    case Nil
    then show ?thesis unfolding WriteDone by (simp add: on_write_done_def fifo_same)
  next
    case (Cons w ws)
    from on_write_done_fields(6) [OF Cons, of cfg e now fsOk]
    show ?thesis unfolding WriteDone by (auto intro: fifo_admits)
  qed
next
  case MemoryTick
  have "fifo cfg [] s (resumed e s)" by (rule fifo_same) (simp_all add: resumed_fields)
  from fifo_trans [OF this fifo_processQueue [of cfg _ e]]
  have "fifo cfg [] s (processQueue e cfg (resumed e s))" by simp
  moreover have "fifo cfg [] s (s\<lparr>memReads := memReads s + 1\<rparr>)" and "fifo cfg [] s s"
    by (rule fifo_same; simp)+
  ultimately show ?thesis
    unfolding MemoryTick by (auto simp: on_memory_interval_def resumed_def Let_def)
qed

lemma run_fifo: "fifo cfg (submissions evs) s (run e cfg s evs)"
proof (induction evs rule: rev_induct)
  case Nil
  show ?case by (simp add: run_def submissions_def fifo_same)
next
  case (snoc ev evs)
  from fifo_trans [OF snoc step_fifo [of cfg ev _ e]]
  show ?case by (simp add: run_snoc submissions_def)
qed

text \<open>Memory is always sufficient when every reading is at least 100 MB.\<close>

definition always_enough :: "env \<Rightarrow> bool" where
  "always_enough e = (\<forall>k. 104857600 \<le> freemem e k)"

text \<open>With memory always sufficient, \<open>processQueue\<close> fills the free slots.\<close>

lemma processQueue_enough:
  assumes "always_enough e"
  shows "admits cfg (min (length (queue s)) (maxProcesses cfg - length (activeProcesses s)))
           s (processQueue e cfg s)"
  using assms
proof (induction e cfg s rule: processQueue.induct)
  case (1 e cfg s)
  let ?mc = "checkAvailableMemory (freemem e (memReads s)) (totalmem e) 100"
  let ?s1 = "s\<lparr>memReads := memReads s + 1\<rparr>"
  show ?case
  proof (cases "length (queue s) > 0 \<and> length (activeProcesses s) < maxProcesses cfg")
    case False
    then have "processQueue e cfg s = s" by (rule processQueue_stop)
    moreover from False
    have "min (length (queue s)) (maxProcesses cfg - length (activeProcesses s)) = 0"
      by auto
    ultimately show ?thesis using admits_zero [of s s cfg] by simp
  next
    case guard: True
    from "1.prems" have enough: "hasEnough ?mc"
      by (simp add: hasEnough_iff always_enough_def)
    from guard obtain job rest where q: "queue s = job # rest" by (cases "queue s") auto
    then have q1: "queue ?s1 = job # rest" by simp
    note f = admit_next_fields(1-3) [OF q1, of cfg ?mc]
    from "1.IH" [OF guard refl refl _ "1.prems"] enough
    have "admits cfg (min (length (queue (admit_next cfg ?mc ?s1)))
                       (maxProcesses cfg - length (activeProcesses (admit_next cfg ?mc ?s1))))
            (admit_next cfg ?mc ?s1) (processQueue e cfg (admit_next cfg ?mc ?s1))"
      by simp
    then have "admits cfg (min (length rest) (maxProcesses cfg - Suc (length (activeProcesses s))))
            (admit_next cfg ?mc ?s1) (processQueue e cfg (admit_next cfg ?mc ?s1))"
      unfolding f by simp
    then have "admits cfg (Suc (min (length rest) (maxProcesses cfg - Suc (length (activeProcesses s)))))
            s (processQueue e cfg (admit_next cfg ?mc ?s1))"
      using q f by (intro admits_step [where ?s1.0 = "admit_next cfg ?mc ?s1"]) simp_all
    moreover from guard q
    have "Suc (min (length rest) (maxProcesses cfg - Suc (length (activeProcesses s))))
            = min (length (queue s)) (maxProcesses cfg - length (activeProcesses s))"
      by auto
    ultimately show ?thesis using processQueue_admit [OF guard enough] by simp
  qed
qed

section \<open>The scenario of three jobs and two workers\<close>

lemma runEval_enough:
  assumes "always_enough e"
  shows "admits cfg (min (Suc (length (queue s))) (maxProcesses cfg - length (activeProcesses s)))
           (s\<lparr>queue := queue s @ [p]\<rparr>) (runEval e cfg p s)"
  using processQueue_enough [OF assms, of cfg "s\<lparr>queue := queue s @ [p]\<rparr>"]
  by (simp add: runEval_def)

lemma runEval_frame:
  "fileWriteQueue (runEval e cfg p s) = fileWriteQueue s"
  "evaluations_json (runEval e cfg p s) = evaluations_json s"
  "settled (runEval e cfg p s) = settled s"
  using processQueue_frame [of e cfg "s\<lparr>queue := queue s @ [p]\<rparr>"]
  by (simp_all add: runEval_def)

lemma on_write_done_enough:
  assumes "always_enough e" and "fileWriteQueue s = w # ws"
  shows "admits cfg (min (length (queue s)) (maxProcesses cfg - length (activeProcesses s)))
           s (on_write_done e cfg now fsOk s)"
proof -
  from processQueue_enough [OF assms(1), of cfg "after_write cfg now fsOk w ws s"]
  have "admits cfg (min (length (queue s)) (maxProcesses cfg - length (activeProcesses s)))
          (after_write cfg now fsOk w ws s) (on_write_done e cfg now fsOk s)"
    by (simp add: on_write_done_eq [OF assms(2)] after_write_fields)
  then show ?thesis by (rule admits_cong [rotated 3]) (simp_all add: after_write_fields)
qed

text \<open>The pool after the jobs \<open>A\<close>, \<open>B\<close> and \<open>C\<close> have been submitted to a new pool.\<close>

definition three_submitted :: "env \<Rightarrow> config \<Rightarrow> string \<Rightarrow> string \<Rightarrow> string \<Rightarrow> pool" where
  "three_submitted e cfg A B C = run e cfg (new_pool None) [Submit A, Submit B, Submit C]"

lemma three_submitted_fields:
  assumes "maxProcesses cfg = 2" and "always_enough e"
  shows "activeProcesses (three_submitted e cfg A B C) = [(0, A), (1, B)]"
    and "queue (three_submitted e cfg A B C) = [C]"
    and "spawned (three_submitted e cfg A B C) = [(A, spawn_args cfg A), (B, spawn_args cfg B)]"
    and "fileWriteQueue (three_submitted e cfg A B C) = []"
    and "allResults (three_submitted e cfg A B C) = []"
proof -
  let ?s0 = "new_pool None"
  let ?s1 = "runEval e cfg A ?s0"
  let ?s2 = "runEval e cfg B ?s1"
  let ?s3 = "runEval e cfg C ?s2"
  have eq: "three_submitted e cfg A B C = ?s3"
    by (simp add: three_submitted_def run_def)
  have s0: "queue ?s0 = []" "activeProcesses ?s0 = []" "spawned ?s0 = []"
    "fileWriteQueue ?s0 = []" "evaluations_json ?s0 = None"
    by (simp_all add: new_pool_def)
  from runEval_enough [OF assms(2), of cfg ?s0 A]
  have s1: "queue ?s1 = []" "activeProcesses ?s1 = [(0, A)]" "spawned ?s1 = [(A, spawn_args cfg A)]"
    by (simp_all add: admits_def s0 assms(1))
  from runEval_enough [OF assms(2), of cfg ?s1 B]
  have s2: "queue ?s2 = []" "activeProcesses ?s2 = [(0, A), (1, B)]"
    "spawned ?s2 = [(A, spawn_args cfg A), (B, spawn_args cfg B)]"
    by (simp_all add: admits_def s1 assms(1))
  from runEval_enough [OF assms(2), of cfg ?s2 C]
  have s3: "queue ?s3 = [C]" "activeProcesses ?s3 = [(0, A), (1, B)]"
    "spawned ?s3 = [(A, spawn_args cfg A), (B, spawn_args cfg B)]"
    by (simp_all add: admits_def s2 assms(1))
  from s3 show "activeProcesses (three_submitted e cfg A B C) = [(0, A), (1, B)]"
    and "queue (three_submitted e cfg A B C) = [C]"
    and "spawned (three_submitted e cfg A B C) = [(A, spawn_args cfg A), (B, spawn_args cfg B)]"
    by (simp_all add: eq)
  show "fileWriteQueue (three_submitted e cfg A B C) = []"
    by (simp add: eq runEval_frame s0)
  show "allResults (three_submitted e cfg A B C) = []"
    by (simp add: eq allResults_def runEval_frame s0)
qed

lemma w_evalPath_exit_write [simp]: "w_evalPath (exit_write e p code signal stdout) = p"
  by (simp add: exit_write_def)

lemma call_news_evalPath:
  "r \<in> set (call_news (now, w)) \<Longrightarrow> entry_evalPath r = w_evalPath w"
  unfolding call_news_def by (simp add: newResults_evalPath)

lemma merged_fresh:
  assumes "\<forall>r \<in> set rs. entry_evalPath r \<noteq> w_evalPath w"
  shows "merged now w rs = rs @ call_news (now, w)"
proof -
  have "keep_existing (w_evalPath w) names r" if "r \<in> set rs" for r names
  proof -
    from that assms have "entry_evalPath r \<noteq> w_evalPath w" by blast
    then show ?thesis by (cases r) (simp_all add: keep_existing_def)
  qed
  then show ?thesis by (simp add: merged_def call_news_def Let_def filter_id_conv)
qed

lemma processQueue_enough_interval:
  assumes "always_enough e"
  shows "memoryCheckInterval (processQueue e cfg s) = memoryCheckInterval s"
  using assms
proof (induction e cfg s rule: processQueue.induct)
  case (1 e cfg s)
  let ?mc = "checkAvailableMemory (freemem e (memReads s)) (totalmem e) 100"
  let ?s1 = "s\<lparr>memReads := memReads s + 1\<rparr>"
  show ?case
  proof (cases "length (queue s) > 0 \<and> length (activeProcesses s) < maxProcesses cfg")
    case False
    then show ?thesis by (simp add: processQueue_stop)
  next
    case guard: True
    from "1.prems" have enough: "hasEnough ?mc"
      by (simp add: hasEnough_iff always_enough_def)
    from guard obtain job rest where q: "queue s = job # rest" by (cases "queue s") auto
    then have q1: "queue ?s1 = job # rest" by simp
    from "1.IH" [OF guard refl refl _ "1.prems"] enough
    have "memoryCheckInterval (processQueue e cfg (admit_next cfg ?mc ?s1))
            = memoryCheckInterval (admit_next cfg ?mc ?s1)"
      by simp
    also have "\<dots> = memoryCheckInterval ?s1" by (rule admit_next_fields(9) [OF q1])
    also have "\<dots> = memoryCheckInterval s" by simp
    finally show ?thesis by (subst processQueue_admit [OF guard enough])
  qed
qed

lemma on_error_interval:
  "memoryCheckInterval (on_error cfg child message s) = memoryCheckInterval s"
  by (simp add: on_error_def Let_def update_tracker_fields)

lemma on_write_done_interval:
  assumes "always_enough e"
  shows "memoryCheckInterval (on_write_done e cfg now fsOk s) = memoryCheckInterval s"
proof (cases "fileWriteQueue s")
  case Nil
  then show ?thesis by (simp add: on_write_done_def)
next
  case (Cons w ws)
  have "memoryCheckInterval (after_write cfg now fsOk w ws s) = memoryCheckInterval s"
    by (simp add: after_write_def appendResultToFile_fields)
  then show ?thesis
    by (simp add: on_write_done_eq [OF Cons] processQueue_enough_interval [OF assms])
qed

text \<open>The number of entries a write supplies; it does not depend on the clock.\<close>

definition entries_yielded :: "write_request \<Rightarrow> nat" where
  "entries_yielded w = length (call_news (0, w))"

lemma length_call_news: "length (call_news (now, w)) = entries_yielded w"
  by (simp add: entries_yielded_def call_news_def newResults_def transformedResult_def
        transformToBraintrustFormat_def Let_def
      split: option.splits worker_result.splits transformed.splits)

lemma paths_call_news:
  "map entry_evalPath (call_news (now, w)) = replicate (entries_yielded w) (w_evalPath w)"
proof -
  have "\<forall>r \<in> set (call_news (now, w)). entry_evalPath r = w_evalPath w"
    by (auto dest: call_news_evalPath)
  then have "map entry_evalPath (call_news (now, w))
      = replicate (length (call_news (now, w))) (w_evalPath w)"
    by (simp add: map_replicate_const [symmetric] cong: map_cong)
  then show ?thesis by (simp add: length_call_news)
qed

lemma entries_yielded_error:
  "w_status w \<noteq> ''success'' \<Longrightarrow> entries_yielded w = 1"
  by (simp add: entries_yielded_def call_news_def newResults_error)

lemma entries_yielded_success:
  "entries_yielded \<lparr>w_evalPath = p, w_status = ''success'',
                    w_result = Some (Object (Some modelResults)), w_error = err\<rparr>
     = max 1 (length modelResults)"
  by (cases modelResults; cases "tl modelResults")
     (auto simp: entries_yielded_def call_news_def newResults_def transformedResult_def
        transformToBraintrustFormat_def Let_def)

subsection \<open>Runs of the scenario in any order of events\<close>

text \<open>
  The events that can occur in a state of the pool once the backlog has been submitted:
  a child that is active exits or fails to start, the write at the head of the write
  queue finishes, the memory timer fires if it is armed. A run is valid when each of its
  events can occur in the state it meets.
\<close>

fun enabled :: "pool \<Rightarrow> event \<Rightarrow> bool" where
  "enabled s (Submit evalPath) = False"
| "enabled s (Exit child code signal stdout) = (child \<in> set (map fst (activeProcesses s)))"
| "enabled s (Error child message) = (child \<in> set (map fst (activeProcesses s)))"
| "enabled s (WriteDone now fsOk) = (fileWriteQueue s \<noteq> [])"
| "enabled s MemoryTick = (memoryCheckInterval s \<noteq> None)"

fun valid :: "env \<Rightarrow> config \<Rightarrow> pool \<Rightarrow> event list \<Rightarrow> bool" where
  "valid e cfg s [] = True"
| "valid e cfg s (ev # evs) = (enabled s ev \<and> valid e cfg (step e cfg s ev) evs)"

text \<open>Every write of the run succeeds.\<close>

fun write_ok :: "event \<Rightarrow> bool" where
  "write_ok (WriteDone now fsOk) = fsOk"
| "write_ok _ = True"

definition writes_succeed :: "event list \<Rightarrow> bool" where
  "writes_succeed evs = list_all write_ok evs"

text \<open>
  The jobs of a pool by their stage: waiting in the queue, running, exited with the
  write of their result pending, and settled.
\<close>

definition jobs_of :: "pool \<Rightarrow> string list" where
  "jobs_of s =
     queue s @ map snd (activeProcesses s) @ map w_evalPath (fileWriteQueue s)
       @ map w_evalPath (settled s)"

text \<open>
  What holds at every point of a valid run of the scenario: each of \<open>A\<close>, \<open>B\<close>, \<open>C\<close> is
  in one stage; \<open>C\<close> waits, with \<open>A\<close> and \<open>B\<close> the only jobs spawned, as long as no
  result has been written, and is spawned as the third child from then on.
\<close>

definition scene :: "config \<Rightarrow> string \<Rightarrow> string \<Rightarrow> string \<Rightarrow> pool \<Rightarrow> bool" where
  "scene cfg A B C s =
     (memoryCheckInterval s = None
      \<and> set (activeProcesses s) \<subseteq> {(0, A), (1, B), (2, C)}
      \<and> distinct (jobs_of s) \<and> set (jobs_of s) = {A, B, C}
      \<and> (if settled s = []
         then queue s = [C] \<and> spawned s = [(A, spawn_args cfg A), (B, spawn_args cfg B)]
         else queue s = []
              \<and> spawned s = [(A, spawn_args cfg A), (B, spawn_args cfg B), (C, spawn_args cfg C)]
              \<and> w_evalPath (hd (settled s)) \<noteq> C))"

lemma valid_snoc:
  "valid e cfg s (evs @ [ev]) \<longleftrightarrow> valid e cfg s evs \<and> enabled (run e cfg s evs) ev"
  by (induction evs arbitrary: s) (simp_all add: run_def)

lemma writes_succeed_snoc:
  "writes_succeed (evs @ [ev]) \<longleftrightarrow> writes_succeed evs \<and> write_ok ev"
  by (simp add: writes_succeed_def)

lemma active_remove:
  assumes "set xs \<subseteq> {(0::nat, A), (1, B), (2, C)}" and "distinct [A, B, C]"
    and "(c, p) \<in> set xs"
  shows "map snd (filter (\<lambda>(d, _). d \<noteq> c) xs) = filter (\<lambda>q. q \<noteq> p) (map snd xs)"
proof -
  from assms(1,3) have cp: "(c, p) \<in> {(0, A), (1, B), (2, C)}" by blast
  have "(case x of (d, _) \<Rightarrow> d \<noteq> c) = (snd x \<noteq> p)" if "x \<in> set xs" for x
  proof -
    from that assms(1) have "x \<in> {(0, A), (1, B), (2, C)}" by blast
    with cp assms(2) show ?thesis by (cases x) auto
  qed
  then have "filter (\<lambda>(d, _). d \<noteq> c) xs = filter (\<lambda>x. snd x \<noteq> p) xs"
    by (intro filter_cong) auto
  then show ?thesis by (simp add: filter_map comp_def)
qed

lemma move_job:
  assumes "distinct (q @ a @ f @ d)" and "p \<in> set a"
  shows "distinct (q @ filter (\<lambda>x. x \<noteq> p) a @ (f @ [p]) @ d)"
    and "set (q @ filter (\<lambda>x. x \<noteq> p) a @ (f @ [p]) @ d) = set (q @ a @ f @ d)"
  using assms by auto

lemma scene_length:
  assumes "scene cfg A B C s" and "distinct [A, B, C]"
  shows "length (jobs_of s) = 3"
proof -
  from assms(1) have "distinct (jobs_of s)" and "set (jobs_of s) = {A, B, C}"
    by (simp_all add: scene_def)
  then have "length (jobs_of s) = card {A, B, C}" by (metis distinct_card)
  with assms(2) show ?thesis by simp
qed

lemma scene_child:
  assumes sc: "scene cfg A B C s" and "(c, p) \<in> set (activeProcesses s)"
  shows "c < length (spawned s)" and "fst (spawned s ! c) = p"
proof -
  from sc assms(2) have cases: "(c, p) = (0, A) \<or> (c, p) = (1, B) \<or> (c, p) = (2, C)"
    by (auto simp: scene_def)
  have third: "settled s \<noteq> []" if "(c, p) = (2, C)"
  proof
    assume "settled s = []"
    with sc have "queue s = [C]" by (simp add: scene_def)
    moreover from that assms(2) have "C \<in> set (map snd (activeProcesses s))" by force
    moreover from sc have "distinct (jobs_of s)" by (simp add: scene_def)
    ultimately show False by (simp add: jobs_of_def)
  qed
  from sc have two: "take 2 (spawned s) = [(A, spawn_args cfg A), (B, spawn_args cfg B)]"
    by (auto simp: scene_def split: if_splits)
  from sc third
  have three: "(c, p) = (2, C) \<Longrightarrow>
      spawned s = [(A, spawn_args cfg A), (B, spawn_args cfg B), (C, spawn_args cfg C)]"
    by (auto simp: scene_def split: if_splits)
  from sc have len: "2 \<le> length (spawned s)" by (auto simp: scene_def split: if_splits)
  from cases len three show "c < length (spawned s)" by auto
  from cases show "fst (spawned s ! c) = p"
  proof (elim disjE)
    assume "(c, p) = (0, A)"
    with two len show ?thesis by (cases "spawned s") auto
  next
    assume "(c, p) = (1, B)"
    with two len show ?thesis
      by (cases "spawned s"; cases "tl (spawned s)") auto
  next
    assume "(c, p) = (2, C)"
    with three show ?thesis by simp
  qed
qed

text \<open>A child that leaves \<open>activeProcesses\<close> with a write queued keeps the scene.\<close>

lemma scene_leave:
  assumes sc: "scene cfg A B C s" and d: "distinct [A, B, C]"
    and cp: "(c, p) \<in> set (activeProcesses s)"
    and a: "activeProcesses s' = filter (\<lambda>(d, _). d \<noteq> c) (activeProcesses s)"
    and f: "fileWriteQueue s' = fileWriteQueue s @ [w]" and w: "w_evalPath w = p"
    and rest: "queue s' = queue s" "spawned s' = spawned s" "settled s' = settled s"
      "memoryCheckInterval s' = memoryCheckInterval s"
  shows "scene cfg A B C s'"
proof -
  from sc have sub: "set (activeProcesses s) \<subseteq> {(0, A), (1, B), (2, C)}"
    and dist: "distinct (jobs_of s)" and all: "set (jobs_of s) = {A, B, C}"
    by (simp_all add: scene_def)
  from cp have mem: "p \<in> set (map snd (activeProcesses s))" by force
  have act: "map snd (activeProcesses s') = filter (\<lambda>q. q \<noteq> p) (map snd (activeProcesses s))"
    unfolding a by (rule active_remove [OF sub d cp])
  have jobs: "jobs_of s'
      = queue s @ filter (\<lambda>q. q \<noteq> p) (map snd (activeProcesses s))
          @ (map w_evalPath (fileWriteQueue s) @ [p]) @ map w_evalPath (settled s)"
    by (simp add: jobs_of_def act f w rest)
  from dist have dist': "distinct (queue s @ map snd (activeProcesses s)
      @ map w_evalPath (fileWriteQueue s) @ map w_evalPath (settled s))"
    by (simp add: jobs_of_def)
  from move_job [OF dist' mem] all
  have "distinct (jobs_of s')" and "set (jobs_of s') = {A, B, C}"
    unfolding jobs by (simp_all add: jobs_of_def)
  moreover from sub a have "set (activeProcesses s') \<subseteq> {(0, A), (1, B), (2, C)}" by auto
  ultimately show ?thesis using sc by (simp add: scene_def rest)
qed

text \<open>The write at the head of the write queue finishes: \<open>C\<close> is spawned if it still waits.\<close>

lemma scene_write_done:
  assumes sc: "scene cfg A B C s" and d: "distinct [A, B, C]"
    and M: "maxProcesses cfg = 2" and en: "always_enough e"
    and q: "fileWriteQueue s = w # ws"
  shows "scene cfg A B C (on_write_done e cfg now fsOk s)"
proof -
  let ?s' = "on_write_done e cfg now fsOk s"
  from sc have sub: "set (activeProcesses s) \<subseteq> {(0, A), (1, B), (2, C)}"
    and dist: "distinct (jobs_of s)" and all: "set (jobs_of s) = {A, B, C}"
    and int: "memoryCheckInterval s = None"
    by (simp_all add: scene_def)
  have int': "memoryCheckInterval ?s' = None"
    using int by (simp add: on_write_done_interval [OF en])
  have st: "settled ?s' = settled s @ [w]" and fw: "fileWriteQueue ?s' = ws"
    by (rule on_write_done_fields(3) [OF q], rule on_write_done_fields(4) [OF q])
  note adm = on_write_done_enough [OF en q, of cfg now fsOk]
  from scene_length [OF sc d]
  have len: "length (queue s) + length (activeProcesses s) + Suc (length ws)
      + length (settled s) = 3"
    by (simp add: jobs_of_def q)
  show ?thesis
  proof (cases "settled s = []")
    case True
    with sc have qu: "queue s = [C]"
      and sp: "spawned s = [(A, spawn_args cfg A), (B, spawn_args cfg B)]"
      by (simp_all add: scene_def)
    from len qu have "length (activeProcesses s) \<le> 1" by simp
    then have k: "min (length (queue s)) (maxProcesses cfg - length (activeProcesses s)) = 1"
      by (simp add: qu M)
    from adm have qu': "queue ?s' = []"
      and sp': "spawned ?s' = [(A, spawn_args cfg A), (B, spawn_args cfg B), (C, spawn_args cfg C)]"
      and ac': "activeProcesses ?s' = activeProcesses s @ [(2, C)]"
      unfolding k by (simp_all add: admits_def qu sp)
    from dist have dl: "distinct ([C] @ map snd (activeProcesses s)
        @ (w_evalPath w # map w_evalPath ws) @ [])"
      by (simp add: jobs_of_def qu q True)
    then have wc: "w_evalPath w \<noteq> C" by auto
    have jobs: "jobs_of ?s'
        = (map snd (activeProcesses s) @ [C]) @ map w_evalPath ws @ [w_evalPath w]"
      by (simp add: jobs_of_def qu' ac' fw st True)
    from dl have "distinct (jobs_of ?s')" unfolding jobs by auto
    moreover from all have "set (jobs_of ?s') = {A, B, C}"
      unfolding jobs by (auto simp: jobs_of_def qu q True)
    moreover from sub have "set (activeProcesses ?s') \<subseteq> {(0, A), (1, B), (2, C)}"
      by (auto simp: ac')
    ultimately show ?thesis
      using int' wc by (simp add: scene_def st qu' sp' True)
  next
    case False
    with sc have qu: "queue s = []"
      and sp: "spawned s = [(A, spawn_args cfg A), (B, spawn_args cfg B), (C, spawn_args cfg C)]"
      and hd: "w_evalPath (hd (settled s)) \<noteq> C"
      by (simp_all add: scene_def)
    have k: "min (length (queue s)) (maxProcesses cfg - length (activeProcesses s)) = 0"
      by (simp add: qu)
    from adm have qu': "queue ?s' = []" and sp': "spawned ?s' = spawned s"
      and ac': "activeProcesses ?s' = activeProcesses s"
      unfolding k by (simp_all add: admits_def qu)
    have jobs: "jobs_of ?s'
        = map snd (activeProcesses s) @ map w_evalPath ws
            @ (map w_evalPath (settled s) @ [w_evalPath w])"
      by (simp add: jobs_of_def qu' ac' fw st)
    from dist have "distinct (jobs_of ?s')"
      unfolding jobs by (auto simp: jobs_of_def qu q)
    moreover from all have "set (jobs_of ?s') = {A, B, C}"
      unfolding jobs by (auto simp: jobs_of_def qu q)
    moreover from False have "hd (settled s @ [w]) = hd (settled s)" by simp
    ultimately show ?thesis
      using int' sub hd False by (simp add: scene_def st qu' sp' sp ac')
  qed
qed

lemma scene_step:
  assumes sc: "scene cfg A B C s" and d: "distinct [A, B, C]"
    and M: "maxProcesses cfg = 2" and en: "always_enough e"
    and ev: "enabled s ev"
  shows "scene cfg A B C (step e cfg s ev)"
proof (cases ev)
  case (Submit p)
  with ev show ?thesis by simp
next
  case (Exit c code signal stdout)
  with ev obtain p where cp: "(c, p) \<in> set (activeProcesses s)" by auto
  note ch = scene_child [OF sc cp]
  note f = on_exit_fields [OF ch(1), of e cfg code signal stdout]
  have "scene cfg A B C (on_exit e cfg c code signal stdout s)"
    by (rule scene_leave [OF sc d cp f(1) f(2) _ f(3) f(4) f(6) f(8)])
       (simp add: ch(2))
  then show ?thesis by (simp add: Exit)
next
  case (Error c message)
  with ev obtain p where cp: "(c, p) \<in> set (activeProcesses s)" by auto
  note ch = scene_child [OF sc cp]
  note f = on_error_fields [OF ch(1), of cfg message]
  have "scene cfg A B C (on_error cfg c message s)"
    by (rule scene_leave [OF sc d cp f(1) f(2) _ f(3) f(4) f(6) on_error_interval])
       (simp add: ch(2))
  then show ?thesis by (simp add: Error)
next
  case (WriteDone now fsOk)
  with ev obtain w ws where "fileWriteQueue s = w # ws"
    by (cases "fileWriteQueue s") auto
  from scene_write_done [OF sc d M en this] show ?thesis by (simp add: WriteDone)
next
  case MemoryTick
  with ev sc show ?thesis by (simp add: scene_def)
qed

lemma three_submitted_scene:
  assumes "maxProcesses cfg = 2" and "always_enough e" and "distinct [A, B, C]"
  shows "scene cfg A B C (three_submitted e cfg A B C)"
proof -
  note f = three_submitted_fields [OF assms(1,2), of A B C]
  have st: "settled (three_submitted e cfg A B C) = []"
    by (simp add: three_submitted_def run_def runEval_frame new_pool_def)
  have "memoryCheckInterval (runEval e cfg p s) = memoryCheckInterval s" for p s
    by (simp add: runEval_def processQueue_enough_interval [OF assms(2)])
  then have int: "memoryCheckInterval (three_submitted e cfg A B C) = None"
    by (simp add: three_submitted_def run_def new_pool_def)
  from assms(3) show ?thesis
    by (simp add: scene_def jobs_of_def f st int) auto
qed

lemma scene_run:
  assumes "maxProcesses cfg = 2" and "always_enough e" and "distinct [A, B, C]"
    and "valid e cfg (three_submitted e cfg A B C) evs"
  shows "scene cfg A B C (run e cfg (three_submitted e cfg A B C) evs)"
  using assms(4)
proof (induction evs rule: rev_induct)
  case Nil
  show ?case by (simp add: run_def three_submitted_scene [OF assms(1-3)])
next
  case (snoc ev evs)
  then have "scene cfg A B C (run e cfg (three_submitted e cfg A B C) evs)"
    and "enabled (run e cfg (three_submitted e cfg A B C) evs) ev"
    by (simp_all add: valid_snoc)
  from scene_step [OF this(1) assms(3,1,2) this(2)] show ?case by (simp add: run_snoc)
qed

text \<open>
  With every write succeeding, the store holds the entries of the settled writes, in the
  order in which they were settled.
\<close>

definition paths_settled :: "pool \<Rightarrow> string list" where
  "paths_settled s =
     concat (map (\<lambda>w. replicate (entries_yielded w) (w_evalPath w)) (settled s))"

lemma store_run:
  assumes M: "maxProcesses cfg = 2" and en: "always_enough e" and d: "distinct [A, B, C]"
    and "valid e cfg (three_submitted e cfg A B C) evs" and "writes_succeed evs"
  shows "map entry_evalPath (allResults (run e cfg (three_submitted e cfg A B C) evs))
           = paths_settled (run e cfg (three_submitted e cfg A B C) evs)"
  using assms(4,5)
proof (induction evs rule: rev_induct)
  case Nil
  have "settled (three_submitted e cfg A B C) = []"
    by (simp add: three_submitted_def run_def runEval_frame new_pool_def)
  then show ?case
    by (simp add: run_def paths_settled_def three_submitted_fields(5) [OF M en])
next
  case (snoc ev evs)
  let ?s = "run e cfg (three_submitted e cfg A B C) evs"
  from snoc.prems have v: "valid e cfg (three_submitted e cfg A B C) evs"
    and en': "enabled ?s ev" and ws: "writes_succeed evs" and ok: "write_ok ev"
    by (simp_all add: valid_snoc writes_succeed_snoc)
  from snoc.IH [OF v ws] have IH: "map entry_evalPath (allResults ?s) = paths_settled ?s" .
  note sc = scene_run [OF M en d v]
  show ?case
  proof (cases ev)
    case (Submit p)
    with en' show ?thesis by simp
  next
    case (Exit c code signal stdout)
    with en' obtain p where cp: "(c, p) \<in> set (activeProcesses ?s)" by auto
    note f = on_exit_fields [OF scene_child(1) [OF sc cp], of e cfg code signal stdout]
    from IH show ?thesis
      by (simp add: run_snoc Exit paths_settled_def allResults_def f)
  next
    case (Error c message)
    with en' obtain p where cp: "(c, p) \<in> set (activeProcesses ?s)" by auto
    note f = on_error_fields [OF scene_child(1) [OF sc cp], of cfg message]
    from IH show ?thesis
      by (simp add: run_snoc Error paths_settled_def allResults_def f)
  next
    case (WriteDone now fsOk)
    with en' obtain w rest where q: "fileWriteQueue ?s = w # rest"
      by (cases "fileWriteQueue ?s") auto
    from ok WriteDone have fsOk by simp
    from sc have "distinct (jobs_of ?s)" by (simp add: scene_def)
    then have new: "w_evalPath w \<notin> set (map w_evalPath (settled ?s))"
      by (simp add: jobs_of_def q)
    have "set (paths_settled ?s) \<subseteq> set (map w_evalPath (settled ?s))"
      by (auto simp: paths_settled_def)
    with IH new have fresh: "\<forall>r \<in> set (allResults ?s). entry_evalPath r \<noteq> w_evalPath w"
      by (metis (no_types, lifting) image_eqI set_map subsetD)
    have "allResults (on_write_done e cfg now True ?s) = allResults ?s @ call_news (now, w)"
      by (simp add: on_write_done_fields(1) [OF q] merged_fresh [OF fresh])
    moreover have "settled (on_write_done e cfg now True ?s) = settled ?s @ [w]"
      by (rule on_write_done_fields(3) [OF q])
    ultimately show ?thesis
      using IH \<open>fsOk\<close> by (simp add: run_snoc WriteDone paths_settled_def paths_call_news)
  next
    case MemoryTick
    with en' sc show ?thesis by (simp add: scene_def)
  qed
qed

lemma length_paths_settled:
  assumes "list_all (\<lambda>w. entries_yielded w = 1) (settled s)"
  shows "length (paths_settled s) = length (settled s)"
proof -
  have "list_all (\<lambda>w. entries_yielded w = 1) ws \<Longrightarrow>
      length (concat (map (\<lambda>w. replicate (entries_yielded w) (w_evalPath w)) ws)) = length ws"
    for ws
    by (induction ws) simp_all
  from this [OF assms] show ?thesis by (simp add: paths_settled_def)
qed

lemma scene_facts:
  assumes sc: "scene cfg A B C s" and d: "distinct [A, B, C]"
  shows "length (activeProcesses s) \<le> 2"
    and "settled s = [] \<Longrightarrow> queue s = [C] \<and> map fst (spawned s) = [A, B]"
    and "settled s \<noteq> [] \<Longrightarrow>
           queue s = [] \<and> map fst (spawned s) = [A, B, C] \<and> w_evalPath (hd (settled s)) \<in> {A, B}"
    and "activeProcesses s = [] \<and> fileWriteQueue s = [] \<Longrightarrow>
           queue s = [] \<and> distinct (map w_evalPath (settled s))
           \<and> set (map w_evalPath (settled s)) = {A, B, C} \<and> length (settled s) = 3"
proof -
  note len = scene_length [OF sc d]
  from sc have dist: "distinct (jobs_of s)" and all: "set (jobs_of s) = {A, B, C}"
    by (simp_all add: scene_def)
  show "length (activeProcesses s) \<le> 2"
  proof (cases "settled s = []")
    case True
    with sc have "queue s = [C]" by (simp add: scene_def)
    with len show ?thesis by (simp add: jobs_of_def)
  next
    case False
    then obtain w ws where "settled s = w # ws" by (cases "settled s") auto
    with len show ?thesis by (simp add: jobs_of_def)
  qed
  show "queue s = [C] \<and> map fst (spawned s) = [A, B]" if "settled s = []"
    using sc that by (simp add: scene_def)
  show "queue s = [] \<and> map fst (spawned s) = [A, B, C] \<and> w_evalPath (hd (settled s)) \<in> {A, B}"
    if ne: "settled s \<noteq> []"
  proof -
    from ne have "hd (settled s) \<in> set (settled s)" by simp
    then have "w_evalPath (hd (settled s)) \<in> set (jobs_of s)" by (simp add: jobs_of_def)
    with all have "w_evalPath (hd (settled s)) \<in> {A, B, C}" by simp
    with sc ne show ?thesis by (auto simp: scene_def)
  qed
  show "queue s = [] \<and> distinct (map w_evalPath (settled s))
           \<and> set (map w_evalPath (settled s)) = {A, B, C} \<and> length (settled s) = 3"
    if fin: "activeProcesses s = [] \<and> fileWriteQueue s = []"
  proof -
    have ne: "settled s \<noteq> []"
    proof
      assume e: "settled s = []"
      with sc have "queue s = [C]" by (simp add: scene_def)
      with len fin e show False by (simp add: jobs_of_def)
    qed
    with sc have q: "queue s = []" by (simp add: scene_def)
    with fin have "jobs_of s = map w_evalPath (settled s)" by (simp add: jobs_of_def)
    with dist all len q show ?thesis by simp
  qed
qed

text \<open>
  An environment whose \<open>JSON.parse\<close> accepts a payload with the results of two models.
\<close>

definition ex_env_two :: env where
  "ex_env_two =
     \<lparr>freemem = (\<lambda>k. 8589934592), totalmem = 17179869184,
      JSON_parse = (\<lambda>payload. if payload = ''{two}''
                              then Some (Object (Some [ex_modelResult,
                                     ex_modelResult\<lparr>model := Some ''claude''\<rparr>]))
                              else None)\<rparr>"

text \<open>
  Claim C6, as stated, fails in the scenario with the models \<open>gpt\<close> and \<open>claude\<close>,
  two slots and memory always sufficient. After the worker of \<open>A\<close> has exited, one
  worker is active and \<open>C\<close> still waits, until the result of \<open>A\<close> has been written; and
  the worker of \<open>A\<close> reports the results of both models, so that the run of the three
  jobs ends with four entries in the store.
\<close>

theorem three_jobs_four_entries:
  "maxProcesses ex_config2 = 2
   \<and> always_enough ex_env_two
   \<and> map snd (activeProcesses
        (run ex_env_two ex_config2 (three_submitted ex_env_two ex_config2 ''A'' ''B'' ''C'')
           [Exit 0 (Some 0) None ''EVAL_RESULT:{two}''])) = [''B'']
   \<and> queue
        (run ex_env_two ex_config2 (three_submitted ex_env_two ex_config2 ''A'' ''B'' ''C'')
           [Exit 0 (Some 0) None ''EVAL_RESULT:{two}'']) = [''C'']
   \<and> activeProcesses
        (run ex_env_two ex_config2 (three_submitted ex_env_two ex_config2 ''A'' ''B'' ''C'')
           [Exit 0 (Some 0) None ''EVAL_RESULT:{two}'', WriteDone 1 True,
            Exit 1 (Some 1) None [], WriteDone 2 True,
            Exit 2 (Some 1) None [], WriteDone 3 True]) = []
   \<and> queue
        (run ex_env_two ex_config2 (three_submitted ex_env_two ex_config2 ''A'' ''B'' ''C'')
           [Exit 0 (Some 0) None ''EVAL_RESULT:{two}'', WriteDone 1 True,
            Exit 1 (Some 1) None [], WriteDone 2 True,
            Exit 2 (Some 1) None [], WriteDone 3 True]) = []
   \<and> length (allResults
        (run ex_env_two ex_config2 (three_submitted ex_env_two ex_config2 ''A'' ''B'' ''C'')
           [Exit 0 (Some 0) None ''EVAL_RESULT:{two}'', WriteDone 1 True,
            Exit 1 (Some 1) None [], WriteDone 2 True,
            Exit 2 (Some 1) None [], WriteDone 3 True])) = 4"
proof -
  have "always_enough ex_env_two" by (simp add: always_enough_def ex_env_two_def)
  moreover have "maxProcesses ex_config2 = 2" by (simp add: ex_config2_def)
  moreover have "map snd (activeProcesses
        (run ex_env_two ex_config2 (three_submitted ex_env_two ex_config2 ''A'' ''B'' ''C'')
           [Exit 0 (Some 0) None ''EVAL_RESULT:{two}''])) = [''B'']"
    by code_simp
  moreover have "queue
        (run ex_env_two ex_config2 (three_submitted ex_env_two ex_config2 ''A'' ''B'' ''C'')
           [Exit 0 (Some 0) None ''EVAL_RESULT:{two}'']) = [''C'']"
    by code_simp
  moreover have "activeProcesses
        (run ex_env_two ex_config2 (three_submitted ex_env_two ex_config2 ''A'' ''B'' ''C'')
           [Exit 0 (Some 0) None ''EVAL_RESULT:{two}'', WriteDone 1 True,
            Exit 1 (Some 1) None [], WriteDone 2 True,
            Exit 2 (Some 1) None [], WriteDone 3 True]) = []"
    by code_simp
  moreover have "queue
        (run ex_env_two ex_config2 (three_submitted ex_env_two ex_config2 ''A'' ''B'' ''C'')
           [Exit 0 (Some 0) None ''EVAL_RESULT:{two}'', WriteDone 1 True,
            Exit 1 (Some 1) None [], WriteDone 2 True,
            Exit 2 (Some 1) None [], WriteDone 3 True]) = []"
    by code_simp
  moreover have "length (allResults
        (run ex_env_two ex_config2 (three_submitted ex_env_two ex_config2 ''A'' ''B'' ''C'')
           [Exit 0 (Some 0) None ''EVAL_RESULT:{two}'', WriteDone 1 True,
            Exit 1 (Some 1) None [], WriteDone 2 True,
            Exit 2 (Some 1) None [], WriteDone 3 True])) = 4"
    by code_simp
  ultimately show ?thesis by (intro conjI)
qed

text \<open>
  Claim C6, amended. At every point of a pool run the number of active workers is at
  most \<open>maxProcesses\<close>; the jobs spawned so far are a prefix of the submitted jobs, in
  the order of submission, and the others wait in that order; every call of
  \<open>processQueue\<close> takes a prefix of the queue, in queue order. With \<open>A\<close>, \<open>B\<close>, \<open>C\<close>
  distinct and submitted to a new pool with two slots and memory always sufficient, \<open>A\<close>
  and \<open>B\<close> are active and \<open>C\<close> waits; and at every point of every valid run from there,
  in whatever order the workers exit or fail and the writes finish: at most two workers
  are active; as long as no result has been written \<open>C\<close> waits and only \<open>A\<close> and \<open>B\<close>
  have been spawned; from the first result written on, which is that of \<open>A\<close> or \<open>B\<close>,
  \<open>C\<close> has been spawned as the third job; when no worker is active and no write is
  pending, three jobs are settled, one each for \<open>A\<close>, \<open>B\<close> and \<open>C\<close>; and when every
  write succeeds, the store holds the entries of the settled jobs in the order in which
  they settled, for each job as many as its outcome yields (one for an error record or
  the result of one model, one per model otherwise), so that it holds exactly three
  entries at the end when the outcome of each job yields one.
\<close>

theorem bounded_fifo_admission:
  "length (activeProcesses (run e cfg (new_pool stored) evs)) \<le> maxProcesses cfg
   \<and> (\<exists>k. k \<le> length (submissions evs)
          \<and> queue (run e cfg (new_pool stored) evs) = drop k (submissions evs)
          \<and> map fst (spawned (run e cfg (new_pool stored) evs)) = take k (submissions evs))
   \<and> (\<exists>k. admits cfg k s (processQueue e cfg s))
   \<and> (maxProcesses cfg = 2 \<and> always_enough e \<and> distinct [A, B, C]
        \<and> valid e cfg (three_submitted e cfg A B C) later
      \<longrightarrow> activeProcesses (three_submitted e cfg A B C) = [(0, A), (1, B)]
          \<and> queue (three_submitted e cfg A B C) = [C]
          \<and> length (activeProcesses (run e cfg (three_submitted e cfg A B C) later)) \<le> 2
          \<and> (settled (run e cfg (three_submitted e cfg A B C) later) = []
             \<longrightarrow> queue (run e cfg (three_submitted e cfg A B C) later) = [C]
                 \<and> map fst (spawned (run e cfg (three_submitted e cfg A B C) later)) = [A, B])
          \<and> (settled (run e cfg (three_submitted e cfg A B C) later) \<noteq> []
             \<longrightarrow> queue (run e cfg (three_submitted e cfg A B C) later) = []
                 \<and> map fst (spawned (run e cfg (three_submitted e cfg A B C) later)) = [A, B, C]
                 \<and> w_evalPath (hd (settled (run e cfg (three_submitted e cfg A B C) later)))
                     \<in> {A, B})
          \<and> (activeProcesses (run e cfg (three_submitted e cfg A B C) later) = []
              \<and> fileWriteQueue (run e cfg (three_submitted e cfg A B C) later) = []
             \<longrightarrow> queue (run e cfg (three_submitted e cfg A B C) later) = []
                 \<and> distinct (map w_evalPath
                      (settled (run e cfg (three_submitted e cfg A B C) later)))
                 \<and> set (map w_evalPath
                      (settled (run e cfg (three_submitted e cfg A B C) later))) = {A, B, C}
                 \<and> length (settled (run e cfg (three_submitted e cfg A B C) later)) = 3)
          \<and> (writes_succeed later
             \<longrightarrow> map entry_evalPath
                   (allResults (run e cfg (three_submitted e cfg A B C) later))
                 = paths_settled (run e cfg (three_submitted e cfg A B C) later)
                 \<and> (activeProcesses (run e cfg (three_submitted e cfg A B C) later) = []
                     \<and> fileWriteQueue (run e cfg (three_submitted e cfg A B C) later) = []
                     \<and> list_all (\<lambda>w. entries_yielded w = 1)
                         (settled (run e cfg (three_submitted e cfg A B C) later))
                    \<longrightarrow> length (allResults (run e cfg (three_submitted e cfg A B C) later))
                          = 3)))"
proof (intro conjI)
  show "length (activeProcesses (run e cfg (new_pool stored) evs)) \<le> maxProcesses cfg"
    by (rule run_budget) (simp add: new_pool_def)
next
  from run_fifo [of cfg evs "new_pool stored" e]
  obtain k where "k \<le> length (queue (new_pool stored) @ submissions evs)"
    and "queue (run e cfg (new_pool stored) evs)
           = drop k (queue (new_pool stored) @ submissions evs)"
    and "spawned (run e cfg (new_pool stored) evs)
           = spawned (new_pool stored)
               @ map (\<lambda>p. (p, spawn_args cfg p))
                   (take k (queue (new_pool stored) @ submissions evs))"
    unfolding fifo_def by blast
  then have "k \<le> length (submissions evs)
      \<and> queue (run e cfg (new_pool stored) evs) = drop k (submissions evs)
      \<and> map fst (spawned (run e cfg (new_pool stored) evs)) = take k (submissions evs)"
    by (simp add: new_pool_def comp_def)
  then show "\<exists>k. k \<le> length (submissions evs)
      \<and> queue (run e cfg (new_pool stored) evs) = drop k (submissions evs)
      \<and> map fst (spawned (run e cfg (new_pool stored) evs)) = take k (submissions evs)" ..
next
  show "\<exists>k. admits cfg k s (processQueue e cfg s)" by (rule processQueue_admits)
next
  let ?s3 = "three_submitted e cfg A B C"
  let ?s = "run e cfg ?s3 later"
  show "maxProcesses cfg = 2 \<and> always_enough e \<and> distinct [A, B, C] \<and> valid e cfg ?s3 later
      \<longrightarrow> activeProcesses ?s3 = [(0, A), (1, B)]
          \<and> queue ?s3 = [C]
          \<and> length (activeProcesses ?s) \<le> 2
          \<and> (settled ?s = [] \<longrightarrow> queue ?s = [C] \<and> map fst (spawned ?s) = [A, B])
          \<and> (settled ?s \<noteq> []
             \<longrightarrow> queue ?s = [] \<and> map fst (spawned ?s) = [A, B, C]
                 \<and> w_evalPath (hd (settled ?s)) \<in> {A, B})
          \<and> (activeProcesses ?s = [] \<and> fileWriteQueue ?s = []
             \<longrightarrow> queue ?s = [] \<and> distinct (map w_evalPath (settled ?s))
                 \<and> set (map w_evalPath (settled ?s)) = {A, B, C}
                 \<and> length (settled ?s) = 3)
          \<and> (writes_succeed later
             \<longrightarrow> map entry_evalPath (allResults ?s) = paths_settled ?s
                 \<and> (activeProcesses ?s = [] \<and> fileWriteQueue ?s = []
                     \<and> list_all (\<lambda>w. entries_yielded w = 1) (settled ?s)
                    \<longrightarrow> length (allResults ?s) = 3))"
  proof (intro impI)
    assume h: "maxProcesses cfg = 2 \<and> always_enough e \<and> distinct [A, B, C]
        \<and> valid e cfg ?s3 later"
    then have M: "maxProcesses cfg = 2" and en: "always_enough e"
      and d: "distinct [A, B, C]" and v: "valid e cfg ?s3 later"
      by simp_all
    note sc = scene_run [OF M en d v]
    note facts = scene_facts [OF sc d]
    note start = three_submitted_fields [OF M en, of A B C]
    have store: "map entry_evalPath (allResults ?s) = paths_settled ?s
        \<and> (activeProcesses ?s = [] \<and> fileWriteQueue ?s = []
            \<and> list_all (\<lambda>w. entries_yielded w = 1) (settled ?s)
           \<longrightarrow> length (allResults ?s) = 3)"
      if ok: "writes_succeed later"
    proof (intro conjI impI)
      show eq: "map entry_evalPath (allResults ?s) = paths_settled ?s"
        by (rule store_run [OF M en d v ok])
      assume fin: "activeProcesses ?s = [] \<and> fileWriteQueue ?s = []
          \<and> list_all (\<lambda>w. entries_yielded w = 1) (settled ?s)"
      then have "length (paths_settled ?s) = length (settled ?s)"
        by (simp add: length_paths_settled)
      moreover from fin facts(4) have "length (settled ?s) = 3" by simp
      moreover from eq have "length (allResults ?s) = length (paths_settled ?s)"
        by (metis length_map)
      ultimately show "length (allResults ?s) = 3" by simp
    qed
    from start(1) start(2) facts(1) facts(2) facts(3) facts(4) store
    show "activeProcesses ?s3 = [(0, A), (1, B)]
          \<and> queue ?s3 = [C]
          \<and> length (activeProcesses ?s) \<le> 2
          \<and> (settled ?s = [] \<longrightarrow> queue ?s = [C] \<and> map fst (spawned ?s) = [A, B])
          \<and> (settled ?s \<noteq> []
             \<longrightarrow> queue ?s = [] \<and> map fst (spawned ?s) = [A, B, C]
                 \<and> w_evalPath (hd (settled ?s)) \<in> {A, B})
          \<and> (activeProcesses ?s = [] \<and> fileWriteQueue ?s = []
             \<longrightarrow> queue ?s = [] \<and> distinct (map w_evalPath (settled ?s))
                 \<and> set (map w_evalPath (settled ?s)) = {A, B, C}
                 \<and> length (settled ?s) = 3)
          \<and> (writes_succeed later
             \<longrightarrow> map entry_evalPath (allResults ?s) = paths_settled ?s
                 \<and> (activeProcesses ?s = [] \<and> fileWriteQueue ?s = []
                     \<and> list_all (\<lambda>w. entries_yielded w = 1) (settled ?s)
                    \<longrightarrow> length (allResults ?s) = 3))"
      by blast
  qed
qed

text \<open>
  A run of the scenario in which both \<open>A\<close> and \<open>B\<close> exit before the first write
  finishes, \<open>A\<close> with a result and \<open>B\<close> with the code 1, and \<open>C\<close> is killed.
\<close>

definition ex_later :: "event list" where
  "ex_later =
     [Exit 0 (Some 0) None ''EVAL_RESULT:{modelResults}'', Exit 1 (Some 1) None [],
      WriteDone 1 True, WriteDone 2 True, Exit 2 None (Some ''SIGKILL'') [], WriteDone 3 True]"

theorem bounded_fifo_admission_witness:
  "(maxProcesses ex_config = 2 \<and> always_enough ex_env \<and> distinct [''A'', ''B'', ''C'']
      \<and> valid ex_env ex_config (three_submitted ex_env ex_config ''A'' ''B'' ''C'') []
      \<and> valid ex_env ex_config (three_submitted ex_env ex_config ''A'' ''B'' ''C'') ex_later
      \<and> writes_succeed ex_later)
   \<and> settled (run ex_env ex_config (three_submitted ex_env ex_config ''A'' ''B'' ''C'') []) = []
   \<and> queue (run ex_env ex_config (three_submitted ex_env ex_config ''A'' ''B'' ''C'') []) = [''C'']
   \<and> settled (run ex_env ex_config (three_submitted ex_env ex_config ''A'' ''B'' ''C'') ex_later)
       \<noteq> []
   \<and> map fst (spawned
        (run ex_env ex_config (three_submitted ex_env ex_config ''A'' ''B'' ''C'') ex_later))
       = [''A'', ''B'', ''C'']
   \<and> (activeProcesses
         (run ex_env ex_config (three_submitted ex_env ex_config ''A'' ''B'' ''C'') ex_later) = []
       \<and> fileWriteQueue
           (run ex_env ex_config (three_submitted ex_env ex_config ''A'' ''B'' ''C'') ex_later) = []
       \<and> list_all (\<lambda>w. entries_yielded w = 1)
           (settled
              (run ex_env ex_config (three_submitted ex_env ex_config ''A'' ''B'' ''C'') ex_later)))
   \<and> length (settled
        (run ex_env ex_config (three_submitted ex_env ex_config ''A'' ''B'' ''C'') ex_later)) = 3
   \<and> length (allResults
        (run ex_env ex_config (three_submitted ex_env ex_config ''A'' ''B'' ''C'') ex_later)) = 3"
proof -
  let ?three = "three_submitted ex_env ex_config ''A'' ''B'' ''C''"
  let ?start = "run ex_env ex_config ?three []"
  let ?s = "run ex_env ex_config ?three ex_later"
  have M: "maxProcesses ex_config = 2" by (simp add: ex_config_def)
  have en: "always_enough ex_env" by (simp add: always_enough_def ex_env_def)
  have d: "distinct [''A'', ''B'', ''C'']" by simp
  have v0: "valid ex_env ex_config ?three []" by simp
  have v: "valid ex_env ex_config ?three ex_later" by code_simp
  have ok: "writes_succeed ex_later" by code_simp
  have e0: "settled ?start = []" by code_simp
  have ne: "settled ?s \<noteq> []" by code_simp
  have fin: "activeProcesses ?s = [] \<and> fileWriteQueue ?s = []" by code_simp
  have one: "list_all (\<lambda>w. entries_yielded w = 1) (settled ?s)" by code_simp
  from M en d v0 have h0: "maxProcesses ex_config = 2 \<and> always_enough ex_env
      \<and> distinct [''A'', ''B'', ''C''] \<and> valid ex_env ex_config ?three []"
    by (intro conjI)
  from M en d v have h: "maxProcesses ex_config = 2 \<and> always_enough ex_env
      \<and> distinct [''A'', ''B'', ''C''] \<and> valid ex_env ex_config ?three ex_later"
    by (intro conjI)
  from fin one have fin1: "activeProcesses ?s = [] \<and> fileWriteQueue ?s = []
      \<and> list_all (\<lambda>w. entries_yielded w = 1) (settled ?s)"
    by simp
  note first = bounded_fifo_admission
    [where e = ex_env and cfg = ex_config and A = "''A''" and B = "''B''" and C = "''C''"
       and later = "[]" and stored = None and evs = "[]" and s = ex_waiting]
  note last = bounded_fifo_admission
    [where e = ex_env and cfg = ex_config and A = "''A''" and B = "''B''" and C = "''C''"
       and later = ex_later and stored = None and evs = "[]" and s = ex_waiting]
  note sc0 = first [THEN conjunct2, THEN conjunct2, THEN conjunct2, THEN mp, OF h0]
  note sc = last [THEN conjunct2, THEN conjunct2, THEN conjunct2, THEN mp, OF h]
  have a: "queue ?start = [''C'']"
    by (rule sc0 [THEN conjunct2, THEN conjunct2, THEN conjunct2, THEN conjunct1, THEN mp,
          OF e0, THEN conjunct1])
  have b: "map fst (spawned ?s) = [''A'', ''B'', ''C'']"
    by (rule sc [THEN conjunct2, THEN conjunct2, THEN conjunct2, THEN conjunct2, THEN conjunct1,
          THEN mp, OF ne, THEN conjunct2, THEN conjunct1])
  have c: "length (settled ?s) = 3"
    by (rule sc [THEN conjunct2, THEN conjunct2, THEN conjunct2, THEN conjunct2, THEN conjunct2,
          THEN conjunct1, THEN mp, OF fin, THEN conjunct2, THEN conjunct2, THEN conjunct2])
  have e: "length (allResults ?s) = 3"
    by (rule sc [THEN conjunct2, THEN conjunct2, THEN conjunct2, THEN conjunct2, THEN conjunct2,
          THEN conjunct2, THEN mp, OF ok, THEN conjunct2, THEN mp, OF fin1])
  from M en d v0 v ok e0 a ne b fin1 c e show ?thesis by blast
qed

section \<open>Shutdown\<close>

text \<open>An orchestrator interrupted while the workers of \<open>A\<close> and \<open>B\<close> run.\<close>

definition ex_orchestrator :: orchestrator where
  "ex_orchestrator =
     \<lparr>the_pool = run ex_env ex_config (new_pool None) [Submit ''A'', Submit ''B''],
      globalProgressTracker = None, globalDebugMode = False, exit_code = None\<rparr>"

text \<open>
  Claim C7. On shutdown every active worker is sent \<open>SIGTERM\<close>, a worker still alive
  after 5 seconds is sent \<open>SIGKILL\<close>, and the shutdown returns once all workers are
  reaped. At the orchestrator interrupted with two active workers the handler of
  \<open>SIGINT\<close> does otherwise: it sends no signal to any worker, both stay in
  \<open>activeProcesses\<close>, and the process exits with code 0. The pool's own \<open>cleanup\<close> is the
  path that sends \<open>SIGTERM\<close> to both; there the two 5000 ms timers send \<open>SIGKILL\<close> and
  let \<open>cleanup\<close> return with no \<open>exit\<close> event of either worker.
\<close>

theorem interrupt_signals_no_worker:
  "activeProcesses (the_pool ex_orchestrator) = [(0, ''A''), (1, ''B'')]
   \<and> killed (the_pool ex_orchestrator) = []
   \<and> killed (the_pool (on_SIGINT ex_orchestrator)) = []
   \<and> activeProcesses (the_pool (on_SIGINT ex_orchestrator)) = [(0, ''A''), (1, ''B'')]
   \<and> exit_code (on_SIGINT ex_orchestrator) = Some 0
   \<and> killed (snd (cleanup_begin (the_pool ex_orchestrator)))
         = [(0, ''SIGTERM''), (1, ''SIGTERM'')]
   \<and> fst (cleanup_begin (the_pool ex_orchestrator)) = [0, 1]
   \<and> cleanup_end (cleanup_begin (the_pool ex_orchestrator)) = None
   \<and> map_option killed
         (cleanup_end (cleanup_timeout 1 (cleanup_timeout 0
            (cleanup_begin (the_pool ex_orchestrator)))))
         = Some [(0, ''SIGTERM''), (1, ''SIGTERM''), (0, ''SIGKILL''), (1, ''SIGKILL'')]"
  by code_simp

section \<open>Resume\<close>

lemma loadCompletedEvals_fields:
  "queue (loadCompletedEvals cfg s) = queue s"
  "spawned (loadCompletedEvals cfg s) = spawned s"
  "activeProcesses (loadCompletedEvals cfg s) = activeProcesses s"
  "evaluations_json (loadCompletedEvals cfg s) = evaluations_json s"
  by (simp_all add: loadCompletedEvals_def console_log_def Let_def split: option.splits)

lemma completedEvals_loadCompletedEvals:
  "completedEvals (loadCompletedEvals cfg s)
     = (case evaluations_json s of
          None \<Rightarrow> completedEvals s
        | Some rs \<Rightarrow> foldl set_add (completedEvals s) (concat (map (keys_of_result cfg) rs)))"
  by (simp add: loadCompletedEvals_def console_log_def Let_def split: option.splits)

lemma completedEvals_loaded:
  "set (completedEvals (loadCompletedEvals cfg s))
     = set (completedEvals s)
         \<union> (case evaluations_json s of
              None \<Rightarrow> {}
            | Some rs \<Rightarrow> (\<Union>r \<in> set rs. set (keys_of_result cfg r)))"
  by (simp add: completedEvals_loadCompletedEvals set_foldl_set_add split: option.splits)

subsection \<open>What \<open>runEvals\<close> submits\<close>

text \<open>What \<open>runEvals\<close> has spawned and queued when it starts to wait, on a new pool.\<close>

lemma runEvals_start_fifo:
  "fifo cfg (evalsToRun cfg (loadCompletedEvals cfg (new_pool stored)) evalPaths)
     (new_pool stored) (runEvals_start e cfg evalPaths (new_pool stored))"
proof -
  let ?s1 = "loadCompletedEvals cfg (new_pool stored)"
  let ?toRun = "evalsToRun cfg ?s1 evalPaths"
  have base: "queue s' = [] \<Longrightarrow> spawned s' = [] \<Longrightarrow> fifo cfg [] (new_pool stored) s'" for s'
    by (rule fifo_same) (simp_all add: new_pool_def)
  have s1: "queue ?s1 = []" "spawned ?s1 = []"
    by (simp_all add: loadCompletedEvals_fields new_pool_def)
  show ?thesis
  proof (cases "length ?toRun = 0")
    case True
    then have "fifo cfg [] (new_pool stored) (runEvals_start e cfg evalPaths (new_pool stored))"
      using s1 by (intro base) (simp_all add: runEvals_start_def Let_def console_log_def)
    with True show ?thesis by simp
  next
    case False
    let ?s2 = "if length (skippedEvals cfg ?s1 evalPaths) > 0 then
                 (let s' = console_log (SkippingEvals (length (skippedEvals cfg ?s1 evalPaths))) ?s1
                  in if verbose cfg then console_log (SkippedEvals (skippedEvals cfg ?s1 evalPaths)) s'
                     else s')
               else ?s1"
    let ?s3 = "console_log (RunningEvals (length ?toRun) (modelFolder cfg)) ?s2"
    have "fifo cfg [] (new_pool stored) ?s3"
      using s1 by (intro base) (simp_all add: Let_def console_log_def)
    from fifo_trans [OF this fifo_foldl_runEval [of cfg ?toRun ?s3 e]] False
    show ?thesis by (simp add: runEvals_start_def Let_def)
  qed
qed

text \<open>
  At every later point of the run, the jobs spawned are a prefix of the evals to run
  followed by the jobs submitted since, and the rest of them waits.
\<close>

lemma run_from_start:
  "\<exists>k. spawned (run e cfg (runEvals_start e cfg evalPaths (new_pool stored)) evs)
          = map (\<lambda>p. (p, spawn_args cfg p))
              (take k (evalsToRun cfg (loadCompletedEvals cfg (new_pool stored)) evalPaths
                         @ submissions evs))
      \<and> queue (run e cfg (runEvals_start e cfg evalPaths (new_pool stored)) evs)
          = drop k (evalsToRun cfg (loadCompletedEvals cfg (new_pool stored)) evalPaths
                      @ submissions evs)"
  using fifo_trans [OF runEvals_start_fifo [of cfg stored evalPaths e]
      run_fifo [of cfg evs "runEvals_start e cfg evalPaths (new_pool stored)" e]]
  unfolding fifo_def by (auto simp: new_pool_def)

lemma runEvals_start_spawned:
  "\<exists>k. spawned (runEvals_start e cfg evalPaths (new_pool stored))
          = map (\<lambda>p. (p, spawn_args cfg p))
              (take k (evalsToRun cfg (loadCompletedEvals cfg (new_pool stored)) evalPaths))
      \<and> queue (runEvals_start e cfg evalPaths (new_pool stored))
          = drop k (evalsToRun cfg (loadCompletedEvals cfg (new_pool stored)) evalPaths)"
  using run_from_start [of e cfg evalPaths stored "[]"]
  by (simp add: run_def submissions_def)

lemma runEvals_start_submits:
  "map fst (spawned (runEvals_start e cfg evalPaths (new_pool stored)))
     @ queue (runEvals_start e cfg evalPaths (new_pool stored))
   = evalsToRun cfg (loadCompletedEvals cfg (new_pool stored)) evalPaths"
proof -
  from runEvals_start_spawned [of e cfg evalPaths stored]
  obtain k where "spawned (runEvals_start e cfg evalPaths (new_pool stored))
          = map (\<lambda>p. (p, spawn_args cfg p))
              (take k (evalsToRun cfg (loadCompletedEvals cfg (new_pool stored)) evalPaths))"
    and "queue (runEvals_start e cfg evalPaths (new_pool stored))
          = drop k (evalsToRun cfg (loadCompletedEvals cfg (new_pool stored)) evalPaths)"
    by blast
  then show ?thesis by (simp add: comp_def)
qed

lemma never_spawned:
  assumes "p \<notin> set (evalsToRun cfg (loadCompletedEvals cfg (new_pool stored)) evalPaths)"
    and "p \<notin> set (submissions evs)"
  shows "p \<notin> fst ` set (spawned (run e cfg (runEvals_start e cfg evalPaths (new_pool stored)) evs))"
    and "p \<notin> set (queue (run e cfg (runEvals_start e cfg evalPaths (new_pool stored)) evs))"
proof -
  let ?all = "evalsToRun cfg (loadCompletedEvals cfg (new_pool stored)) evalPaths @ submissions evs"
  from run_from_start [of e cfg evalPaths stored evs]
  obtain k
    where s: "spawned (run e cfg (runEvals_start e cfg evalPaths (new_pool stored)) evs)
          = map (\<lambda>p. (p, spawn_args cfg p)) (take k ?all)"
    and q: "queue (run e cfg (runEvals_start e cfg evalPaths (new_pool stored)) evs) = drop k ?all"
    by blast
  from assms have "p \<notin> set ?all" by simp
  then have "p \<notin> set (take k ?all)" and "p \<notin> set (drop k ?all)"
    by (auto dest: in_set_takeD in_set_dropD)
  then show "p \<notin> fst ` set (spawned (run e cfg (runEvals_start e cfg evalPaths (new_pool stored)) evs))"
    and "p \<notin> set (queue (run e cfg (runEvals_start e cfg evalPaths (new_pool stored)) evs))"
    by (auto simp: s q image_iff)
qed

subsection \<open>What the loader reads from the ledger\<close>

text \<open>
  The ledger holds a result of the model \<open>m\<close> for the eval path \<open>p\<close> when one of its
  entries is fulfilled with the status \<open>success\<close> for \<open>p\<close> and names \<open>m\<close>: in the
  current format with the non-empty \<open>experimentName\<close> \<open>m\<close> and scores of any value, in
  the legacy format with \<open>m\<close> among the models of \<open>modelResults\<close>, or in the legacy format
  of a bare \<open>evaluationResults\<close> with \<open>m\<close> the first configured model. A rejected record
  is no result.
\<close>

definition recorded :: "config \<Rightarrow> entry list \<Rightarrow> string \<Rightarrow> string \<Rightarrow> bool" where
  "recorded cfg rs p m =
     list_ex (\<lambda>r. case r of
                 Fulfilled q st res \<Rightarrow>
                   q = p \<and> st = ''success''
                   \<and> (case res of
                         Braintrust b \<Rightarrow> experimentName b = Some m \<and> m \<noteq> [] \<and> scores b \<noteq> None
                       | LegacyModelResults ms \<Rightarrow> m \<in> set ms
                       | LegacyEvaluationResults \<Rightarrow> MODELS cfg \<noteq> [] \<and> m = hd (MODELS cfg)
                       | NoResult \<Rightarrow> False)
               | Rejected q err \<Rightarrow> False) rs"

text \<open>An eval path without the character that separates it from the model in a key.\<close>

definition plain :: "string \<Rightarrow> bool" where
  "plain p = (CHR ''_'' \<notin> set p)"

lemma keys_of_result_iff:
  "k \<in> set (keys_of_result cfg r) \<longleftrightarrow> (\<exists>m. recorded cfg [r] (entry_evalPath r) m \<and> k = key_of (entry_evalPath r) m)"
proof (cases r)
  case (Rejected q err)
  then show ?thesis by (simp add: keys_of_result_def recorded_def)
next
  case (Fulfilled q st res)
  show ?thesis
  proof (cases res)
    case (Braintrust b)
    with Fulfilled show ?thesis
      by (cases "experimentName b")
         (auto simp: keys_of_result_def recorded_def truthy_def str_def Let_def)
  next
    case (LegacyModelResults ms)
    with Fulfilled show ?thesis
      by (auto simp: keys_of_result_def recorded_def truthy_def str_def Let_def)
  next
    case LegacyEvaluationResults
    with Fulfilled show ?thesis
      by (auto simp: keys_of_result_def recorded_def truthy_def str_def Let_def)
  next
    case NoResult
    with Fulfilled show ?thesis
      by (auto simp: keys_of_result_def recorded_def truthy_def Let_def)
  qed
qed

lemma recorded_iff:
  "recorded cfg rs p m \<longleftrightarrow> (\<exists>r \<in> set rs. entry_evalPath r = p \<and> recorded cfg [r] p m)"
proof -
  have "entry_evalPath r = p" if "recorded cfg [r] p m" for r
    using that by (cases r) (auto simp: recorded_def)
  then show ?thesis by (auto simp: recorded_def list_ex_iff)
qed

text \<open>The keys in \<open>completedEvals\<close> after the load are the keys of the results recorded.\<close>

lemma completed_key_iff:
  "k \<in> set (completedEvals (loadCompletedEvals cfg (new_pool (Some rs))))
     \<longleftrightarrow> (\<exists>q n. recorded cfg rs q n \<and> k = key_of q n)"
proof -
  have "k \<in> set (completedEvals (loadCompletedEvals cfg (new_pool (Some rs))))
          \<longleftrightarrow> (\<exists>r \<in> set rs. k \<in> set (keys_of_result cfg r))"
    by (simp add: completedEvals_loaded new_pool_def)
  also have "\<dots> \<longleftrightarrow> (\<exists>r \<in> set rs. \<exists>m. recorded cfg [r] (entry_evalPath r) m
                                        \<and> k = key_of (entry_evalPath r) m)"
    by (simp add: keys_of_result_iff)
  also have "\<dots> \<longleftrightarrow> (\<exists>q n. recorded cfg rs q n \<and> k = key_of q n)"
    unfolding recorded_iff [of cfg rs] by blast
  finally show ?thesis .
qed

lemma takeWhile_key:
  "plain p \<Longrightarrow> takeWhile (\<lambda>c. c \<noteq> CHR ''_'') (p @ ''_'' @ rest) = p"
  by (induction p) (auto simp: plain_def)

lemma key_of_inj:
  assumes "plain p" and "plain q" and "key_of p m = key_of q n"
  shows "p = q \<and> m = n"
proof -
  from assms(3) have eq: "p @ ''_'' @ m = q @ ''_'' @ n" by (simp add: key_of_def)
  then have "takeWhile (\<lambda>c. c \<noteq> CHR ''_'') (p @ ''_'' @ m)
             = takeWhile (\<lambda>c. c \<noteq> CHR ''_'') (q @ ''_'' @ n)" by simp
  with assms(1,2) have "p = q" by (simp only: takeWhile_key)
  with eq show ?thesis by simp
qed

lemma startsWith_key:
  assumes "plain p" and "plain q"
  shows "startsWith (key_of q n) (p @ ''_'') \<longleftrightarrow> q = p"
proof
  assume "q = p"
  then show "startsWith (key_of q n) (p @ ''_'')" by (simp add: startsWith_def key_of_def)
next
  assume "startsWith (key_of q n) (p @ ''_'')"
  then have "take (length (p @ ''_'')) (q @ ''_'' @ n) = p @ ''_''"
    by (simp add: startsWith_def key_of_def)
  then have "q @ ''_'' @ n = (p @ ''_'') @ drop (length (p @ ''_'')) (q @ ''_'' @ n)"
    by (metis append_take_drop_id)
  then have "q @ ''_'' @ n = p @ ''_'' @ drop (length (p @ ''_'')) (q @ ''_'' @ n)" by simp
  then have "takeWhile (\<lambda>c. c \<noteq> CHR ''_'') (q @ ''_'' @ n)
      = takeWhile (\<lambda>c. c \<noteq> CHR ''_'') (p @ ''_'' @ drop (length (p @ ''_'')) (q @ ''_'' @ n))"
    by simp
  with assms show "q = p" by (simp only: takeWhile_key)
qed

lemma recorded_path:
  assumes "recorded cfg rs q n"
  shows "\<exists>r \<in> set rs. entry_evalPath r = q"
  using assms unfolding recorded_iff [of cfg rs] by blast

text \<open>A recorded result makes the loader classify its pair, and its eval, as complete.\<close>

lemma recorded_completed:
  assumes "recorded cfg rs p m"
  shows "isEvalCompleted (loadCompletedEvals cfg (new_pool (Some rs))) p (Some m)"
    and "isEvalCompleted (loadCompletedEvals cfg (new_pool (Some rs))) p None"
proof -
  let ?s1 = "loadCompletedEvals cfg (new_pool (Some rs))"
  from assms have key: "key_of p m \<in> set (completedEvals ?s1)"
    unfolding completed_key_iff by blast
  have pre: "startsWith (key_of p m) (p @ ''_'')"
    by (simp add: startsWith_def key_of_def)
  from key pre show "isEvalCompleted ?s1 p None"
    by (auto simp: isEvalCompleted_def truthy_def Let_def list_ex_iff)
  from key pre show "isEvalCompleted ?s1 p (Some m)"
    by (auto simp: isEvalCompleted_def truthy_def str_def Let_def list_ex_iff)
qed

text \<open>
  For eval paths without an underscore the classification is exact: a pair is complete
  when, and only when, the ledger holds a result for it.
\<close>

lemma completed_iff_recorded:
  assumes "plain p" and "\<forall>r \<in> set rs. plain (entry_evalPath r)"
  shows "m \<noteq> [] \<Longrightarrow>
         isEvalCompleted (loadCompletedEvals cfg (new_pool (Some rs))) p (Some m)
           \<longleftrightarrow> recorded cfg rs p m"
    and "isEvalCompleted (loadCompletedEvals cfg (new_pool (Some rs))) p None
           \<longleftrightarrow> (\<exists>n. recorded cfg rs p n)"
    and "isEvalCompleted (loadCompletedEvals cfg (new_pool (Some rs))) p (Some [])
           \<longleftrightarrow> (\<exists>n. recorded cfg rs p n)"
proof -
  let ?s1 = "loadCompletedEvals cfg (new_pool (Some rs))"
  have pl: "plain q" if "recorded cfg rs q n" for q n
    using recorded_path [OF that] assms(2) by auto
  show "isEvalCompleted ?s1 p (Some m) \<longleftrightarrow> recorded cfg rs p m" if "m \<noteq> []"
  proof
    assume "isEvalCompleted ?s1 p (Some m)"
    with that have "key_of p m \<in> set (completedEvals ?s1)"
      by (simp add: isEvalCompleted_def truthy_def str_def)
    then obtain q n where r: "recorded cfg rs q n" and "key_of p m = key_of q n"
      unfolding completed_key_iff by blast
    with key_of_inj [OF assms(1) pl [OF r]] show "recorded cfg rs p m" by auto
  next
    assume "recorded cfg rs p m"
    then show "isEvalCompleted ?s1 p (Some m)" by (rule recorded_completed)
  qed
  have any: "list_ex (\<lambda>key. startsWith key (p @ ''_'')) (completedEvals ?s1)
               \<longleftrightarrow> (\<exists>n. recorded cfg rs p n)"
  proof
    assume "list_ex (\<lambda>key. startsWith key (p @ ''_'')) (completedEvals ?s1)"
    then obtain k where "k \<in> set (completedEvals ?s1)" and sw: "startsWith k (p @ ''_'')"
      by (auto simp: list_ex_iff)
    then obtain q n where r: "recorded cfg rs q n" and k: "k = key_of q n"
      unfolding completed_key_iff by blast
    from sw k startsWith_key [OF assms(1) pl [OF r]] have "q = p" by simp
    with r show "\<exists>n. recorded cfg rs p n" by blast
  next
    assume "\<exists>n. recorded cfg rs p n"
    then obtain n where "recorded cfg rs p n" ..
    from recorded_completed(2) [OF this]
    show "list_ex (\<lambda>key. startsWith key (p @ ''_'')) (completedEvals ?s1)"
      by (simp add: isEvalCompleted_def truthy_def Let_def)
  qed
  then show "isEvalCompleted ?s1 p None \<longleftrightarrow> (\<exists>n. recorded cfg rs p n)"
    by (simp add: isEvalCompleted_def truthy_def Let_def)
  from any show "isEvalCompleted ?s1 p (Some []) \<longleftrightarrow> (\<exists>n. recorded cfg rs p n)"
    by (simp add: isEvalCompleted_def truthy_def Let_def)
qed

text \<open>The loader reads nothing from a rejected record.\<close>

lemma rejected_ignored:
  "completedEvals (loadCompletedEvals cfg (new_pool (Some rs)))
     = completedEvals (loadCompletedEvals cfg
         (new_pool (Some (filter (\<lambda>r. entry_status r \<noteq> ''rejected'') rs))))"
proof -
  have "concat (map (keys_of_result cfg) rs)
          = concat (map (keys_of_result cfg) (filter (\<lambda>r. entry_status r \<noteq> ''rejected'') rs))"
    by (induction rs) (auto simp: keys_of_result_def)
  then show ?thesis by (simp add: completedEvals_loadCompletedEvals new_pool_def)
qed

lemma multi_model_nonempty:
  "modelFolder cfg = ''all-models'' \<Longrightarrow> MODELS cfg \<noteq> []"
proof (rule notI)
  assume m: "modelFolder cfg = ''all-models''" and "MODELS cfg = []"
  then have "sanitize ''default'' = ''all-models''" by (simp add: modelFolder_def)
  moreover have "sanitize ''default'' \<noteq> ''all-models''" by code_simp
  ultimately show False by simp
qed

text \<open>An eval without any recorded result is among the evals to run.\<close>

lemma unrecorded_is_run:
  assumes "plain p" and "\<forall>r \<in> set rs. plain (entry_evalPath r)"
    and "\<forall>m. \<not> recorded cfg rs p m" and "p \<in> set evalPaths"
  shows "p \<in> set (evalsToRun cfg (loadCompletedEvals cfg (new_pool (Some rs))) evalPaths)"
proof -
  let ?s1 = "loadCompletedEvals cfg (new_pool (Some rs))"
  have no: "\<not> isEvalCompleted ?s1 p x" for x
  proof (cases x)
    case None
    with assms(3) show ?thesis by (simp add: completed_iff_recorded(2) [OF assms(1,2)])
  next
    case (Some m)
    with assms(3) show ?thesis
      by (cases "m = []")
         (simp_all add: completed_iff_recorded(1) [OF assms(1,2)]
            completed_iff_recorded(3) [OF assms(1,2)])
  qed
  show ?thesis
  proof (cases "modelFolder cfg = ''all-models''")
    case True
    then obtain m where "m \<in> set (MODELS cfg)"
      using multi_model_nonempty [OF True] by (cases "MODELS cfg") auto
    with no have "\<not> allCompleted cfg ?s1 p" by (auto simp: allCompleted_def list_all_iff)
    with True assms(4) show ?thesis by (simp add: evalsToRun_def)
  next
    case False
    with no assms(4) show ?thesis by (simp add: evalsToRun_def)
  qed
qed
subsection \<open>A failed job\<close>

text \<open>
  Claim C1, as stated, fails for the error record. A child that exits with code 1 leaves
  a rejected record in the ledger; the next invocation of \<open>runEvals\<close> on that ledger does
  not classify the pair as complete and spawns a worker for the eval again.
\<close>

theorem failed_job_is_run_again:
  "evaluations_json
     (run ex_env ex_config (runEvals_start ex_env ex_config [''001''] (new_pool None))
        [Exit 0 (Some 1) None [], WriteDone 5 True])
   = Some [Rejected ''001'' (Some ''Process exited with code 1'')]
   \<and> \<not> isEvalCompleted
         (loadCompletedEvals ex_config
            (new_pool (Some [Rejected ''001'' (Some ''Process exited with code 1'')])))
         ''001'' (Some ''gpt'')
   \<and> spawned
        (runEvals_start ex_env ex_config [''001'']
           (new_pool (Some [Rejected ''001'' (Some ''Process exited with code 1'')])))
      = [(''001'', [''cli.ts'', ''--eval'', ''001'', ''--all-models''])]"
  by code_simp

lemma rejected_only_all_run:
  assumes "list_all (\<lambda>r. entry_status r = ''rejected'') rs"
  shows "completedEvals (loadCompletedEvals cfg (new_pool (Some rs))) = []"
    and "evalsToRun cfg (loadCompletedEvals cfg (new_pool (Some rs))) evalPaths = evalPaths"
proof -
  let ?s1 = "loadCompletedEvals cfg (new_pool (Some rs))"
  from assms have "filter (\<lambda>r. entry_status r \<noteq> ''rejected'') rs = []"
    by (simp add: filter_empty_conv list_all_iff)
  with rejected_ignored [of cfg rs]
  show c: "completedEvals ?s1 = []"
    by (simp add: completedEvals_loadCompletedEvals new_pool_def)
  then have no: "\<not> isEvalCompleted ?s1 p x" for p x
    by (simp add: isEvalCompleted_def Let_def)
  show "evalsToRun cfg ?s1 evalPaths = evalPaths"
  proof (cases "modelFolder cfg = ''all-models''")
    case True
    then obtain m where "m \<in> set (MODELS cfg)"
      using multi_model_nonempty [OF True] by (cases "MODELS cfg") auto
    with no have "\<not> allCompleted cfg ?s1 p" for p
      by (auto simp: allCompleted_def list_all_iff)
    with True show ?thesis by (simp add: evalsToRun_def)
  next
    case False
    with no show ?thesis by (simp add: evalsToRun_def)
  qed
qed

text \<open>
  Claim C1, amended. For every pair \<open>(p, m)\<close> for which the ledger holds a result, that
  is a fulfilled entry with the status \<open>success\<close> in the current format, whatever its
  scores are, or in one of the two legacy formats, \<open>loadCompletedEvals\<close> classifies the
  pair as complete; and \<open>runEvals\<close> spawns no worker for \<open>p\<close>, neither when it starts nor
  at any later point of the run, in a single-model run, and in a multi-model run when
  the ledger holds a result for every configured model. A rejected record, as written
  for a job that failed, is no result: the loader reads the same from a ledger with and
  without its rejected records; an eval for which the ledger holds no result is not
  classified as complete and is submitted again (eval paths without an underscore); and
  on a ledger of rejected records only, every eval given is submitted again, in order.
\<close>

theorem resume_skips_recorded:
  "(recorded cfg rs p m
      \<longrightarrow> isEvalCompleted (loadCompletedEvals cfg (new_pool (Some rs))) p (Some m))
   \<and> (recorded cfg rs p m
        \<and> (modelFolder cfg \<noteq> ''all-models'' \<or> list_all (recorded cfg rs p) (MODELS cfg))
        \<and> p \<notin> set (submissions evs)
      \<longrightarrow> p \<notin> fst ` set (spawned
                (run e cfg (runEvals_start e cfg evalPaths (new_pool (Some rs))) evs))
          \<and> p \<notin> set (queue
                (run e cfg (runEvals_start e cfg evalPaths (new_pool (Some rs))) evs)))
   \<and> completedEvals (loadCompletedEvals cfg (new_pool (Some rs)))
       = completedEvals (loadCompletedEvals cfg
           (new_pool (Some (filter (\<lambda>r. entry_status r \<noteq> ''rejected'') rs))))
   \<and> (plain p \<and> (\<forall>r \<in> set rs. plain (entry_evalPath r)) \<and> (\<forall>n. \<not> recorded cfg rs p n)
        \<and> p \<in> set evalPaths
      \<longrightarrow> (\<forall>x. \<not> isEvalCompleted (loadCompletedEvals cfg (new_pool (Some rs))) p x)
          \<and> p \<in> set (map fst (spawned (runEvals_start e cfg evalPaths (new_pool (Some rs))))
                       @ queue (runEvals_start e cfg evalPaths (new_pool (Some rs)))))
   \<and> (list_all (\<lambda>r. entry_status r = ''rejected'') rs
      \<longrightarrow> completedEvals (loadCompletedEvals cfg (new_pool (Some rs))) = []
          \<and> map fst (spawned (runEvals_start e cfg evalPaths (new_pool (Some rs))))
              @ queue (runEvals_start e cfg evalPaths (new_pool (Some rs)))
            = evalPaths)"
proof (intro conjI impI allI)
  let ?s1 = "loadCompletedEvals cfg (new_pool (Some rs))"
  let ?s' = "runEvals_start e cfg evalPaths (new_pool (Some rs))"
  show "isEvalCompleted ?s1 p (Some m)" if "recorded cfg rs p m"
    using that by (rule recorded_completed)
  {
    assume h: "recorded cfg rs p m
        \<and> (modelFolder cfg \<noteq> ''all-models'' \<or> list_all (recorded cfg rs p) (MODELS cfg))
        \<and> p \<notin> set (submissions evs)"
    then have r: "recorded cfg rs p m" and sub: "p \<notin> set (submissions evs)"
      and mode: "modelFolder cfg \<noteq> ''all-models'' \<or> list_all (recorded cfg rs p) (MODELS cfg)"
      by simp_all
    have skip: "p \<notin> set (evalsToRun cfg ?s1 evalPaths)"
    proof (cases "modelFolder cfg = ''all-models''")
      case False
      with recorded_completed(2) [OF r] show ?thesis by (simp add: evalsToRun_def)
    next
      case True
      with mode have "list_all (recorded cfg rs p) (MODELS cfg)" by simp
      then have "allCompleted cfg ?s1 p"
        by (auto simp: allCompleted_def list_all_iff intro: recorded_completed(1))
      with True show ?thesis by (simp add: evalsToRun_def)
    qed
    from never_spawned [OF skip sub]
    show "p \<notin> fst ` set (spawned (run e cfg ?s' evs))" and "p \<notin> set (queue (run e cfg ?s' evs))"
      by simp_all
  }
  show "completedEvals ?s1
       = completedEvals (loadCompletedEvals cfg
           (new_pool (Some (filter (\<lambda>r. entry_status r \<noteq> ''rejected'') rs))))"
    by (rule rejected_ignored)
  {
    assume h: "plain p \<and> (\<forall>r \<in> set rs. plain (entry_evalPath r))
        \<and> (\<forall>n. \<not> recorded cfg rs p n) \<and> p \<in> set evalPaths"
    then have pl: "plain p" "\<forall>r \<in> set rs. plain (entry_evalPath r)"
      and no: "\<forall>n. \<not> recorded cfg rs p n" and mem: "p \<in> set evalPaths"
      by simp_all
    show "\<not> isEvalCompleted ?s1 p x" for x
    proof (cases x)
      case None
      with no show ?thesis by (simp add: completed_iff_recorded(2) [OF pl])
    next
      case (Some n)
      with no show ?thesis
        by (cases "n = []")
           (simp_all add: completed_iff_recorded(1) [OF pl] completed_iff_recorded(3) [OF pl])
    qed
    from unrecorded_is_run [OF pl no mem]
    show "p \<in> set (map fst (spawned ?s') @ queue ?s')"
      by (simp only: runEvals_start_submits)
  }
  {
    assume rej: "list_all (\<lambda>r. entry_status r = ''rejected'') rs"
    then show "completedEvals ?s1 = []" by (rule rejected_only_all_run)
    from rejected_only_all_run(2) [OF rej, of cfg evalPaths]
    show "map fst (spawned ?s') @ queue ?s' = evalPaths"
      by (simp only: runEvals_start_submits)
  }
qed

theorem resume_skips_recorded_witness:
  "recorded ex_config ex_ledger ''001'' ''gpt''
   \<and> modelFolder ex_config \<noteq> ''all-models''
   \<and> ''001'' \<notin> set (submissions [Exit 0 (Some 1) None [], WriteDone 5 True])
   \<and> isEvalCompleted (loadCompletedEvals ex_config (new_pool (Some ex_ledger))) ''001'' (Some ''gpt'')
   \<and> ''001'' \<notin> fst ` set (spawned
         (run ex_env ex_config
            (runEvals_start ex_env ex_config [''001'', ''002''] (new_pool (Some ex_ledger)))
            [Exit 0 (Some 1) None [], WriteDone 5 True]))
   \<and> plain ''001''
   \<and> list_all (\<lambda>r. plain (entry_evalPath r))
        [Rejected ''001'' (Some ''Process exited with code 1'')]
   \<and> (\<forall>n. \<not> recorded ex_config [Rejected ''001'' (Some ''Process exited with code 1'')] ''001'' n)
   \<and> ''001'' \<in> set [''001'', ''002'']
   \<and> ''001'' \<in> set (map fst (spawned (runEvals_start ex_env ex_config [''001'', ''002'']
                  (new_pool (Some [Rejected ''001'' (Some ''Process exited with code 1'')]))))
                @ queue (runEvals_start ex_env ex_config [''001'', ''002'']
                  (new_pool (Some [Rejected ''001'' (Some ''Process exited with code 1'')]))))
   \<and> list_all (\<lambda>r. entry_status r = ''rejected'') [Rejected ''001'' (Some ''Process exited with code 1'')]
   \<and> map fst (spawned (runEvals_start ex_env ex_config [''001'', ''002'']
                  (new_pool (Some [Rejected ''001'' (Some ''Process exited with code 1'')]))))
        @ queue (runEvals_start ex_env ex_config [''001'', ''002'']
                  (new_pool (Some [Rejected ''001'' (Some ''Process exited with code 1'')])))
      = [''001'', ''002'']"
proof -
  let ?evs = "[Exit 0 (Some 1) None [], WriteDone 5 True]"
  let ?rej = "[Rejected ''001'' (Some ''Process exited with code 1'')]"
  let ?paths = "[''001'', ''002'']"
  have r: "recorded ex_config ex_ledger ''001'' ''gpt''" by code_simp
  have m: "modelFolder ex_config \<noteq> ''all-models''" by code_simp
  have sub: "''001'' \<notin> set (submissions ?evs)" by (simp add: submissions_def)
  have pl: "plain ''001''" by (simp add: plain_def)
  have pls: "\<forall>r \<in> set ?rej. plain (entry_evalPath r)" by (simp add: plain_def)
  then have pls': "list_all (\<lambda>r. plain (entry_evalPath r)) ?rej" by (simp add: list_all_iff)
  have no: "\<forall>n. \<not> recorded ex_config ?rej ''001'' n" by (simp add: recorded_def)
  have mem: "''001'' \<in> set ?paths" by simp
  have j: "list_all (\<lambda>r. entry_status r = ''rejected'') ?rej" by simp
  note rec = resume_skips_recorded [of ex_config ex_ledger "''001''" "''gpt''" ?evs ex_env ?paths]
  note fail = resume_skips_recorded [of ex_config ?rej "''001''" "''gpt''" ?evs ex_env ?paths]
  from r m sub have prem2: "recorded ex_config ex_ledger ''001'' ''gpt''
      \<and> (modelFolder ex_config \<noteq> ''all-models''
          \<or> list_all (recorded ex_config ex_ledger ''001'') (MODELS ex_config))
      \<and> ''001'' \<notin> set (submissions ?evs)"
    by blast
  from pl pls no mem have prem4: "plain ''001'' \<and> (\<forall>r \<in> set ?rej. plain (entry_evalPath r))
      \<and> (\<forall>n. \<not> recorded ex_config ?rej ''001'' n) \<and> ''001'' \<in> set ?paths"
    by (intro conjI)
  have a: "isEvalCompleted (loadCompletedEvals ex_config (new_pool (Some ex_ledger))) ''001''
      (Some ''gpt'')"
    by (rule rec [THEN conjunct1, THEN mp, OF r])
  have b: "''001'' \<notin> fst ` set (spawned
         (run ex_env ex_config
            (runEvals_start ex_env ex_config ?paths (new_pool (Some ex_ledger))) ?evs))"
    by (rule rec [THEN conjunct2, THEN conjunct1, THEN mp, OF prem2, THEN conjunct1])
  have c: "''001'' \<in> set (map fst (spawned (runEvals_start ex_env ex_config ?paths
                  (new_pool (Some ?rej))))
                @ queue (runEvals_start ex_env ex_config ?paths (new_pool (Some ?rej))))"
    by (rule fail [THEN conjunct2, THEN conjunct2, THEN conjunct2, THEN conjunct1, THEN mp,
          OF prem4, THEN conjunct2])
  have d: "map fst (spawned (runEvals_start ex_env ex_config ?paths (new_pool (Some ?rej))))
        @ queue (runEvals_start ex_env ex_config ?paths (new_pool (Some ?rej)))
      = ?paths"
    by (rule fail [THEN conjunct2, THEN conjunct2, THEN conjunct2, THEN conjunct2, THEN mp,
          OF j, THEN conjunct2])
  from r m sub a b pl pls' no mem c j d show ?thesis by (intro conjI)
qed

subsection \<open>A partially recorded group of models\<close>






end
